theory Spec2Isabelle
  imports Main
begin

section \<open>Text as Python sees it\<close>

text \<open>
  A Python string is modelled as a \<^typ>\<open>string\<close>, one \<^typ>\<open>char\<close> per code point, so
  the model covers text whose code points are below 256. The character classes are those
  of Python 3 for \<^verbatim>\<open>str\<close>: \<^verbatim>\<open>str.isspace\<close>, \<^verbatim>\<open>str.strip\<close> and the regular
  expression class \<^verbatim>\<open>\s\<close> share one notion of whitespace, \<^verbatim>\<open>\d\<close> is a decimal digit
  and \<^verbatim>\<open>\w\<close> is an alphanumeric character or the underscore.
\<close>

definition code_in :: "nat \<Rightarrow> nat \<Rightarrow> char \<Rightarrow> bool" where
  "code_in lo hi c = (lo \<le> of_char c \<and> of_char c \<le> hi)"

definition isspace :: "char \<Rightarrow> bool" where
  \<comment> \<open>tab, LF, VT, FF, CR, FS, GS, RS, US, space, NEL, no-break space\<close>
  "isspace c = (c \<in> set [CHR 0x09, CHR 0x0A, CHR 0x0B, CHR 0x0C, CHR 0x0D, CHR 0x1C,
                            CHR 0x1D, CHR 0x1E, CHR 0x1F, CHR 0x20, CHR 0x85, CHR 0xA0])"

definition re_digit :: "char \<Rightarrow> bool" where
  "re_digit c = code_in 0x30 0x39 c"

definition re_word :: "char \<Rightarrow> bool" where
  \<comment> \<open>\<^verbatim>\<open>\w\<close>: \<^verbatim>\<open>str.isalnum\<close> or the underscore; above 127 these are the letters,
      superscript digits and vulgar fractions of Latin-1\<close>
  "re_word c = (code_in 0x30 0x39 c \<or> code_in 0x41 0x5A c \<or> c = CHR ''_'' \<or> code_in 0x61 0x7A c
     \<or> c \<in> set [CHR 0xAA, CHR 0xB2, CHR 0xB3, CHR 0xB5, CHR 0xB9, CHR 0xBA, CHR 0xBC, CHR 0xBD, CHR 0xBE]
     \<or> code_in 0xC0 0xD6 c \<or> code_in 0xD8 0xF6 c \<or> code_in 0xF8 0xFF c)"

definition line_boundary :: "char \<Rightarrow> bool" where
  \<comment> \<open>the characters at which \<^verbatim>\<open>str.splitlines\<close> breaks: LF, VT, FF, CR, FS, GS, RS, NEL\<close>
  "line_boundary c = (c \<in> set [CHR 0x0A, CHR 0x0B, CHR 0x0C, CHR 0x0D, CHR 0x1C, CHR 0x1D,
                                  CHR 0x1E, CHR 0x85])"

definition startswith :: "string \<Rightarrow> string \<Rightarrow> bool" where
  "startswith s p = (take (length p) s = p)"

definition strip :: "string \<Rightarrow> string" where
  "strip s = rev (dropWhile isspace (rev (dropWhile isspace s)))"

text \<open>
  \<^verbatim>\<open>s.splitlines()\<close>: the lines of \<open>s\<close> without their terminators; CR LF is one
  terminator, and a terminator at the very end opens no further line.
\<close>

fun splitlines :: "string \<Rightarrow> string list" where
  "splitlines [] = []"
| "splitlines [c] = (if line_boundary c then [[]] else [[c]])"
| "splitlines (c # d # cs) =
     (if c = CHR 0x0D \<and> d = CHR 0x0A then [] # splitlines cs
      else if line_boundary c then [] # splitlines (d # cs)
      else (case splitlines (d # cs) of [] \<Rightarrow> [[c]] | l # ls \<Rightarrow> (c # l) # ls))"

text \<open>
  \<^verbatim>\<open>re.sub(r'\s{2,}', ' ', s)\<close>: scanning from the left, every maximal run of two or more
  whitespace characters becomes one space; everything else is copied.
\<close>

function sub_runs :: "string \<Rightarrow> string" where
  "sub_runs [] = []"
| "sub_runs [c] = [c]"
| "sub_runs (c # d # cs) =
     (if isspace c \<and> isspace d then CHR '' '' # sub_runs (dropWhile isspace cs)
      else c # sub_runs (d # cs))"
  by pat_completeness auto
termination
  by (relation "measure length") (auto simp: le_imp_less_Suc length_dropWhile_le less_SucI)

text \<open>
  \<^verbatim>\<open>s.split(' ', 1)\<close>: at most one split, at the first space. The source unpacks the
  result into two names, which raises \<^verbatim>\<open>ValueError\<close> when there was no space.
\<close>

definition split_once :: "string \<Rightarrow> string list" where
  "split_once s =
     (if CHR '' '' \<in> set s
      then [takeWhile (\<lambda>c. c \<noteq> CHR '' '') s, tl (dropWhile (\<lambda>c. c \<noteq> CHR '' '') s)]
      else [s])"

section \<open>Errors\<close>

datatype error =
    NotImplementedError
  | TypeError
  | ValueError
  | AssertionError
  | IOError
  | CalledProcessError nat string
  | ConnectionError string

fun unpack_pair :: "string list \<Rightarrow> error + (string \<times> string)" where
  "unpack_pair [a, b] = Inr (a, b)"
| "unpack_pair _ = Inl ValueError"

section \<open>The configuration builder\<close>

text \<open>
  A cell is the scanner's object; \<^verbatim>\<open>configuration\<close> reads three attributes of it.
  The values of the returned dictionary are Python objects: text, or \<^verbatim>\<open>None\<close> when the
  WEP branch stores a passkey that was not supplied. A dictionary literal is the list of
  its items in the order written.

  \<^verbatim>\<open>PBKDF2(passphrase, salt, iterations).hexread(octets)\<close> belongs to the external
  \<^verbatim>\<open>pbkdf2\<close> package; it is the parameter \<open>hexread\<close> below.
\<close>

record cell =
  ssid :: string
  encrypted :: bool
  encryption_type :: string

datatype pyval = Str string | NoneValue

type_synonym pbkdf2 = "string \<Rightarrow> string \<Rightarrow> nat \<Rightarrow> nat \<Rightarrow> string"

definition configuration :: "pbkdf2 \<Rightarrow> cell \<Rightarrow> string option \<Rightarrow> error + (string \<times> pyval) list" where
  "configuration hexread cell passkey =
     (if \<not> encrypted cell then
        Inr [(''wireless-essid'', Str (ssid cell)),
             (''wireless-channel'', Str ''auto'')]
      else if startswith (encryption_type cell) ''wpa'' then
        (case passkey of
           None \<Rightarrow> Inl TypeError \<comment> \<open>\<^verbatim>\<open>len(None)\<close>\<close>
         | Some p \<Rightarrow>
             let p' = (if length p \<noteq> 64 then hexread p (ssid cell) 4096 32 else p)
             in Inr [(''wpa-ssid'', Str (ssid cell)),
                     (''wpa-psk'', Str p'),
                     (''wireless-channel'', Str ''auto'')])
      else if encryption_type cell = ''wep'' then
        Inr [(''wireless-essid'', Str (ssid cell)),
             (''wireless-key'', (case passkey of None \<Rightarrow> NoneValue | Some p \<Rightarrow> Str p))]
      else Inl NotImplementedError)"

section \<open>Schemes and their text\<close>

text \<open>
  A scheme has an interface, a name and a dictionary of options. A Python dictionary
  (from Python 3.7 on) keeps its keys in insertion order, and assigning to a key that is
  already present replaces the value where the key stands: the model is an association
  list with \<open>dict_set\<close> as item assignment. Option keys and values are text, as the
  parser produces them.
\<close>

type_synonym options = "(string \<times> string) list"

record scheme =
  interface :: string
  name :: string
  options :: options

fun dict_set :: "('k \<times> 'v) list \<Rightarrow> 'k \<Rightarrow> 'v \<Rightarrow> ('k \<times> 'v) list" where
  "dict_set [] k v = [(k, v)]"
| "dict_set ((k', v') # d) k v = (if k' = k then (k', v) # d else (k', v') # dict_set d k v)"

definition option_line :: "string \<times> string \<Rightarrow> string" where
  "option_line kv = ''    '' @ fst kv @ '' '' @ snd kv"

definition header_line :: "scheme \<Rightarrow> string" where
  "header_line s = ''iface '' @ interface s @ ''-'' @ name s @ '' inet dhcp''"

definition scheme_str :: "scheme \<Rightarrow> string" where
  \<comment> \<open>\<^verbatim>\<open>Scheme.__str__\<close>\<close>
  "scheme_str s =
     header_line s @ concat (map (\<lambda>kv. CHR 0x0A # option_line kv) (options s)) @ [CHR 0x0A]"

definition iface :: "scheme \<Rightarrow> string" where
  "iface s = interface s @ ''-'' @ name s"

definition as_args :: "scheme \<Rightarrow> string list" where
  "as_args s =
     (interface s @ ''='' @ iface s) # concat (map (\<lambda>(k, v). [''-o'', k @ ''='' @ v]) (options s))"

subsection \<open>The representation used in messages\<close>

text \<open>
  \<^verbatim>\<open>repr\<close> of a string: apostrophes around it, or quotation marks when it holds an
  apostrophe and no quotation mark; the delimiter and the backslash are escaped, tab, LF
  and CR are written \<^verbatim>\<open>\t\<close>, \<^verbatim>\<open>\n\<close>, \<^verbatim>\<open>\r\<close>, and every other character that is
  not printable as two hexadecimal digits after \<^verbatim>\<open>\x\<close>.
\<close>

definition hex2 :: "char \<Rightarrow> string" where
  "hex2 c = [''0123456789abcdef'' ! (of_char c div 16), ''0123456789abcdef'' ! (of_char c mod 16)]"

definition printable :: "char \<Rightarrow> bool" where
  "printable c = (code_in 0x20 0x7E c \<or> (code_in 0xA1 0xFF c \<and> c \<noteq> CHR 0xAD))"

definition repr_char :: "char \<Rightarrow> char \<Rightarrow> string" where
  "repr_char q c =
     (if c = q \<or> c = CHR 0x5C then [CHR 0x5C, c]
      else if c = CHR 0x09 then [CHR 0x5C, CHR ''t'']
      else if c = CHR 0x0A then [CHR 0x5C, CHR ''n'']
      else if c = CHR 0x0D then [CHR 0x5C, CHR ''r'']
      else if printable c then [c]
      else [CHR 0x5C, CHR ''x''] @ hex2 c)"

definition repr_str :: "string \<Rightarrow> string" where
  "repr_str s =
     (let q = (if CHR 0x27 \<in> set s \<and> CHR 0x22 \<notin> set s then CHR 0x22 else CHR 0x27)
      in q # concat (map (repr_char q) s) @ [q])"

fun join :: "string \<Rightarrow> string list \<Rightarrow> string" where
  "join sep [] = []"
| "join sep [x] = x"
| "join sep (x # y # ys) = x @ sep @ join sep (y # ys)"

definition repr_dict :: "options \<Rightarrow> string" where
  "repr_dict d = ''{'' @ join '', '' (map (\<lambda>(k, v). repr_str k @ '': '' @ repr_str v) d) @ ''}''"

definition scheme_repr :: "scheme \<Rightarrow> string" where
  \<comment> \<open>\<^verbatim>\<open>Scheme.__repr__\<close>; the format string of the source has no closing parenthesis\<close>
  "scheme_repr s =
     ''Scheme(interface='' @ repr_str (interface s) @ '', name='' @ repr_str (name s)
       @ '', options='' @ repr_dict (options s)"

section \<open>The parser\<close>

text \<open>
  \<^verbatim>\<open>scheme_re.match(line)\<close> for the pattern
  \<^verbatim>\<open>iface\s+(?P<interface>wlan\d?)(?:-(?P<name>\w+))?\<close>, anchored at the start of the
  line and free at its end. The result is \<open>None\<close> when there is no match and otherwise
  the two groups, the second being \<open>None\<close> when the optional part took no part in the
  match. No backtracking can change the outcome: \<^verbatim>\<open>\s+\<close> must take every whitespace
  character since \<open>w\<close> is none; \<^verbatim>\<open>\d?\<close> keeps a digit it finds since what follows can
  match the empty text; and \<^verbatim>\<open>\w+\<close> takes the longest run of word characters.
\<close>

definition after_prefix :: "string \<Rightarrow> string \<Rightarrow> string option" where
  "after_prefix p s = (if startswith s p then Some (drop (length p) s) else None)"

definition scheme_re_match :: "string \<Rightarrow> (string \<times> string option) option" where
  "scheme_re_match line =
     (case after_prefix ''iface'' line of
        None \<Rightarrow> None
      | Some r1 \<Rightarrow>
          if takeWhile isspace r1 = [] then None
          else (case after_prefix ''wlan'' (dropWhile isspace r1) of
                  None \<Rightarrow> None
                | Some r2 \<Rightarrow>
                    let d = (if r2 \<noteq> [] \<and> re_digit (hd r2) then [hd r2] else []);
                        r3 = drop (length d) r2;
                        n = (if r3 \<noteq> [] \<and> hd r3 = CHR ''-'' then takeWhile re_word (tl r3) else [])
                    in Some (''wlan'' @ d, if n = [] then None else Some n)))"

definition parse_option :: "string \<Rightarrow> error + (string \<times> string)" where
  \<comment> \<open>\<^verbatim>\<open>key, value = re.sub(r'\s{2,}', ' ', line.strip()).split(' ', 1)\<close>\<close>
  "parse_option line = unpack_pair (split_once (sub_runs (strip line)))"

text \<open>
  The inner loop of \<^verbatim>\<open>extract_schemes\<close>: it takes option lines off the front of
  \<open>lines\<close> while the first one starts with a space, and returns the dictionary with what
  is left of the lines, or the error of the first line that cannot be unpacked.
\<close>

fun read_options :: "options \<Rightarrow> string list \<Rightarrow> error + (options \<times> string list)" where
  "read_options opts [] = Inr (opts, [])"
| "read_options opts (l # ls) =
     (if startswith l '' '' then
        (case parse_option l of
           Inl e \<Rightarrow> Inl e
         | Inr (key, val) \<Rightarrow> read_options (dict_set opts key val) ls)
      else Inr (opts, l # ls))"

text \<open>
  \<^verbatim>\<open>extract_schemes\<close> is a generator. Its run is the list of the schemes it yields
  and, when an exception ends it, that exception: what was yielded before stays yielded.
\<close>

type_synonym generated = "scheme list \<times> error option"

function extract_lines :: "string list \<Rightarrow> generated" where
  "extract_lines [] = ([], None)"
| "extract_lines (line # lines) =
     (if startswith line ''#'' \<or> line = [] then extract_lines lines
      else (case scheme_re_match line of
              None \<Rightarrow> extract_lines lines
            | Some (ifc, None) \<Rightarrow> extract_lines lines
            | Some (ifc, Some nm) \<Rightarrow>
                (case read_options [] lines of
                   Inl e \<Rightarrow> ([], Some e)
                 | Inr (opts, rest) \<Rightarrow>
                     (case extract_lines rest of
                        (ss, r) \<Rightarrow> (\<lparr>interface = ifc, name = nm, options = opts\<rparr> # ss, r)))))"
  by pat_completeness auto
termination
proof -
  have shorter: "length rest \<le> length ls"
    if "read_options opts ls = Inr (opts', rest)" for opts ls opts' rest
    using that
  proof (induction ls arbitrary: opts)
    case Nil
    then show ?case by simp
  next
    case (Cons l ls)
    show ?case
    proof (cases "startswith l '' ''")
      case False
      with Cons.prems show ?thesis by simp
    next
      case True
      with Cons.prems obtain key val
        where "read_options (dict_set opts key val) ls = Inr (opts', rest)"
        by (auto split: sum.splits)
      from Cons.IH [OF this] show ?thesis by simp
    qed
  qed
  show ?thesis
    by (relation "measure length") (auto dest: shorter simp: less_Suc_eq_le)
qed

definition extract_schemes :: "string \<Rightarrow> generated" where
  \<comment> \<open>the parameter \<^verbatim>\<open>scheme_class\<close> only names the constructor of the yielded objects\<close>
  "extract_schemes interfaces = extract_lines (splitlines interfaces)"

section \<open>The store\<close>

text \<open>
  The interfaces file is the sequence of its characters as they are stored, or \<open>None\<close>
  while there is no such file. Every operation takes the file and returns its result
  together with the file it leaves behind.

  The source opens the file in text mode. Reading then translates line endings: every
  CR LF and every CR that stands alone comes out as LF. Writing translates LF into the
  line separator of the platform, which is LF on the Linux systems whose
  \<^verbatim>\<open>/etc/network/interfaces\<close> this is, so what is written is stored as it is.
\<close>

type_synonym textfile = "string option"

fun universal_newlines :: "string \<Rightarrow> string" where
  "universal_newlines [] = []"
| "universal_newlines [c] = (if c = CHR 0x0D then [CHR 0x0A] else [c])"
| "universal_newlines (c # d # cs) =
     (if c = CHR 0x0D \<and> d = CHR 0x0A then CHR 0x0A # universal_newlines cs
      else if c = CHR 0x0D then CHR 0x0A # universal_newlines (d # cs)
      else c # universal_newlines (d # cs))"

definition ensure_file_exists :: "textfile \<Rightarrow> textfile" where
  \<comment> \<open>Modelled from the spec: \<^verbatim>\<open>wifi.utils.ensure_file_exists\<close> is not among the sources;
      the spec has it guarantee that the file exists, creating it empty if it is missing.\<close>
  "ensure_file_exists f = (case f of None \<Rightarrow> Some [] | Some text \<Rightarrow> Some text)"

definition read_all :: "textfile \<Rightarrow> error + string" where
  \<comment> \<open>what comes out of \<^verbatim>\<open>open(path, 'r')\<close>, by \<^verbatim>\<open>f.read()\<close> or line by line\<close>
  "read_all f = (case f of None \<Rightarrow> Inl IOError | Some text \<Rightarrow> Inr (universal_newlines text))"

definition all_schemes :: "textfile \<Rightarrow> (error + generated) \<times> textfile" where
  \<comment> \<open>\<^verbatim>\<open>Scheme.all\<close>\<close>
  "all_schemes f =
     (let f' = ensure_file_exists f
      in (case read_all f' of Inl e \<Rightarrow> (Inl e, f') | Inr text \<Rightarrow> (Inr (extract_schemes text), f')))"

definition where_schemes :: "(scheme \<Rightarrow> bool) \<Rightarrow> textfile \<Rightarrow> (error + scheme list) \<times> textfile" where
  \<comment> \<open>\<^verbatim>\<open>Scheme.where\<close>: \<^verbatim>\<open>list(filter(fn, cls.all()))\<close> runs the generator to its end, so an
      exception of the parser comes out here\<close>
  "where_schemes fn f =
     (case all_schemes f of
        (Inl e, f') \<Rightarrow> (Inl e, f')
      | (Inr (ss, Some e), f') \<Rightarrow> (Inl e, f')
      | (Inr (ss, None), f') \<Rightarrow> (Inr (filter fn ss), f'))"

definition find_scheme :: "string \<Rightarrow> string \<Rightarrow> textfile \<Rightarrow> (error + scheme option) \<times> textfile" where
  \<comment> \<open>\<^verbatim>\<open>Scheme.find\<close>: the first match, \<open>None\<close> for the \<^verbatim>\<open>IndexError\<close> of an empty list\<close>
  "find_scheme ifc nm f =
     (case where_schemes (\<lambda>s. interface s = ifc \<and> name s = nm) f of
        (Inl e, f') \<Rightarrow> (Inl e, f')
      | (Inr [], f') \<Rightarrow> (Inr None, f')
      | (Inr (s # ss), f') \<Rightarrow> (Inr (Some s), f'))"

definition append_text :: "textfile \<Rightarrow> string \<Rightarrow> textfile" where
  \<comment> \<open>writing through \<^verbatim>\<open>open(path, 'a')\<close>\<close>
  "append_text f text = (case f of None \<Rightarrow> Some text | Some old \<Rightarrow> Some (old @ text))"

definition save :: "scheme \<Rightarrow> textfile \<Rightarrow> (error + unit) \<times> textfile" where
  \<comment> \<open>\<^verbatim>\<open>Scheme.save\<close>; a scheme object is true, so the assertion fails exactly when \<open>find_scheme\<close>
      returns one\<close>
  "save s f =
     (case find_scheme (interface s) (name s) f of
        (Inl e, f') \<Rightarrow> (Inl e, f')
      | (Inr (Some found), f') \<Rightarrow> (Inl AssertionError, f')
      | (Inr None, f') \<Rightarrow> (Inr (), append_text (append_text f' [CHR 0x0A]) (scheme_str s)))"

text \<open>
  Iterating over an open text file gives the lines of what is read, each with its
  terminating LF; only the last line can be without one.
\<close>

fun file_lines :: "string \<Rightarrow> string list" where
  "file_lines [] = []"
| "file_lines (c # cs) =
     (if c = CHR 0x0A then [c] # file_lines cs
      else (case file_lines cs of [] \<Rightarrow> [[c]] | l # ls \<Rightarrow> (c # l) # ls))"

fun delete_loop :: "string \<Rightarrow> bool \<Rightarrow> string \<Rightarrow> string list \<Rightarrow> string" where
  \<comment> \<open>the \<^verbatim>\<open>for\<close> loop of \<^verbatim>\<open>Scheme.delete\<close> with its variables \<open>skip\<close> and \<open>content\<close>\<close>
  "delete_loop hdr skip content [] = content"
| "delete_loop hdr skip content (line # lines) =
     (let skip' = (if strip line = [] then False
                   else if strip line = hdr then True
                   else skip)
      in delete_loop hdr skip' (if \<not> skip' then content @ line else content) lines)"

definition delete :: "scheme \<Rightarrow> textfile \<Rightarrow> (error + unit) \<times> textfile" where
  \<comment> \<open>\<^verbatim>\<open>Scheme.delete\<close>\<close>
  "delete s f =
     (case read_all f of
        Inl e \<Rightarrow> (Inl e, f)
      | Inr text \<Rightarrow> (Inr (), Some (delete_loop (header_line s) False [] (file_lines text))))"

section \<open>Activation\<close>

text \<open>
  The operating system is a state \<open>'w\<close> and two collaborators: \<open>run\<close> executes a command
  line in it and gives back the exit status with the captured output, and
  \<open>current_for_scheme\<close> (\<^verbatim>\<open>Connection.current_for_scheme\<close>) looks up the connection of
  a scheme, \<open>None\<close> standing for a result that Python counts as false. The result of
  \<open>activate\<close> comes with what it printed and the state it leaves.
\<close>

type_synonym 'w runner = "string list \<Rightarrow> 'w \<Rightarrow> (nat \<times> string) \<times> 'w"

type_synonym ('w, 'c) lookup = "scheme \<Rightarrow> 'w \<Rightarrow> 'c option \<times> 'w"

definition check_output :: "'w runner \<Rightarrow> string list \<Rightarrow> 'w \<Rightarrow> (error + string) \<times> 'w" where
  \<comment> \<open>Modelled from the spec: \<^verbatim>\<open>wifi.subprocess_compat.check_output\<close> is not among the
      sources; the spec has a non-zero exit status propagate as an error and the captured
      output returned otherwise.\<close>
  "check_output run argv w =
     (case run argv w of
        ((status, out), w') \<Rightarrow>
          if status = 0 then (Inr out, w') else (Inl (CalledProcessError status out), w'))"

definition activate ::
  "'w runner \<Rightarrow> ('w, 'c) lookup \<Rightarrow> scheme \<Rightarrow> 'w \<Rightarrow> (error + 'c) \<times> string list \<times> 'w" where
  "activate run current_for_scheme s w =
     (case check_output run [''/sbin/ifdown'', interface s] w of
        (Inl e, w1) \<Rightarrow> (Inl e, [], w1)
      | (Inr down, w1) \<Rightarrow>
          (case check_output run (''/sbin/ifup'' # as_args s) w1 of
             (Inl e, w2) \<Rightarrow> (Inl e, [], w2)
           | (Inr output, w2) \<Rightarrow>
               (case current_for_scheme s w2 of
                  (None, w3) \<Rightarrow>
                    (Inl (ConnectionError (''Failed to connect to '' @ scheme_repr s)), [output], w3)
                | (Some connection, w3) \<Rightarrow> (Inr connection, [], w3))))"

section \<open>Notions used in the properties\<close>

subsection \<open>Keys\<close>

text \<open>
  A digit of lower-case hexadecimal, as \<^verbatim>\<open>hexread\<close> writes octets.
\<close>

definition hexdigit :: "char \<Rightarrow> bool" where
  "hexdigit c = (code_in 0x30 0x39 c \<or> code_in 0x61 0x66 c)"

subsection \<open>Representations\<close>

text \<open>
  A plain string has only printable characters, none of them an apostrophe or a
  backslash. \<open>unescape\<close> reads one character back from the front of a representation
  written with the delimiter \<open>q\<close>, and gives the rest.
\<close>

definition plain :: "string \<Rightarrow> bool" where
  "plain x = list_all (\<lambda>c. printable c \<and> c \<noteq> CHR 0x27 \<and> c \<noteq> CHR 0x5C) x"

definition hexval :: "char \<Rightarrow> nat" where
  "hexval h = (if code_in 0x30 0x39 h then of_char h - 48 else of_char h - 87)"

fun unescape :: "char \<Rightarrow> string \<Rightarrow> (char \<times> string) option" where
  "unescape q [] = None"
| "unescape q (b # bs) =
     (if b \<noteq> CHR 0x5C then Some (b, bs)
      else (case bs of
              [] \<Rightarrow> None
            | e # es \<Rightarrow>
                if e = q \<or> e = CHR 0x5C then Some (e, es)
                else if e = CHR ''t'' then Some (CHR 0x09, es)
                else if e = CHR ''n'' then Some (CHR 0x0A, es)
                else if e = CHR ''r'' then Some (CHR 0x0D, es)
                else if e = CHR ''x'' then
                  (case es of
                     h1 # h2 # rest \<Rightarrow> Some (char_of (16 * hexval h1 + hexval h2), rest)
                   | _ \<Rightarrow> None)
                else None))"

subsection \<open>Lines and dictionaries of the parser\<close>

text \<open>
  A line names a scheme when the pattern matches it with both groups; a line that does
  not is skipped at the top level of the parser. An indented line is one that starts with
  whitespace.
\<close>

definition names_scheme :: "string \<Rightarrow> bool" where
  "names_scheme line = (case scheme_re_match line of Some (ifc, Some nm) \<Rightarrow> True | _ \<Rightarrow> False)"

definition indented :: "string \<Rightarrow> bool" where
  "indented line = (line \<noteq> [] \<and> isspace (hd line))"

text \<open>
  The elements of a list in the order in which they first occur, and the dictionary
  after a run of item assignments.
\<close>

fun first_occurrences :: "'a list \<Rightarrow> 'a list" where
  "first_occurrences [] = []"
| "first_occurrences (x # xs) = x # filter (\<lambda>y. y \<noteq> x) (first_occurrences xs)"

definition assign_all :: "('k \<times> 'v) list \<Rightarrow> ('k \<times> 'v) list \<Rightarrow> ('k \<times> 'v) list" where
  "assign_all d kvs = foldl (\<lambda>d kv. dict_set d (fst kv) (snd kv)) d kvs"

subsection \<open>Lines and blocks of the interfaces file\<close>

text \<open>
  The lines that the loop of \<open>delete\<close> retains, and the lines of a file without its
  blocks: a block starts at a line whose stripped text is the header and runs up to, but
  not including, the next blank line.
\<close>

fun retained :: "string \<Rightarrow> bool \<Rightarrow> string list \<Rightarrow> string list" where
  "retained hdr skip [] = []"
| "retained hdr skip (line # lines) =
     (let skip' = (if strip line = [] then False
                   else if strip line = hdr then True
                   else skip)
      in if \<not> skip' then line # retained hdr skip' lines else retained hdr skip' lines)"

definition starts_block :: "string \<Rightarrow> string \<Rightarrow> bool" where
  "starts_block hdr line = (strip line \<noteq> [] \<and> strip line = hdr)"

function without_blocks :: "string \<Rightarrow> string list \<Rightarrow> string list" where
  "without_blocks hdr [] = []"
| "without_blocks hdr (line # lines) =
     (if starts_block hdr line
      then without_blocks hdr (dropWhile (\<lambda>l. strip l \<noteq> []) lines)
      else line # without_blocks hdr lines)"
  by pat_completeness auto
termination
  by (relation "measure (\<lambda>(hdr, ls). length ls)")
     (auto simp: le_imp_less_Suc length_dropWhile_le)

text \<open>
  The lines of a text file are well formed: each is a run of characters other than LF
  closed by one LF, except that the last may be a non-empty run without LF. Such lines
  are the lines of the text they make up, and the lines that \<open>delete\<close> retains are again
  well formed.
\<close>

definition terminated :: "string \<Rightarrow> bool" where
  "terminated l = (\<exists>b. l = b @ [CHR 0x0A] \<and> CHR 0x0A \<notin> set b)"

definition unterminated :: "string \<Rightarrow> bool" where
  "unterminated l = (l \<noteq> [] \<and> CHR 0x0A \<notin> set l)"

fun lines_ok :: "string list \<Rightarrow> bool" where
  "lines_ok [] = True"
| "lines_ok (l # ls) = ((terminated l \<or> (unterminated l \<and> ls = [])) \<and> lines_ok ls)"

subsection \<open>Schemes that the grammar can carry\<close>

text \<open>
  What the pattern accepts in full: an interface is \<^verbatim>\<open>wlan\<close> with at most one digit after
  it, a name is a non-empty run of word characters.
\<close>

definition valid_interface :: "string \<Rightarrow> bool" where
  "valid_interface ifc =
     (ifc = ''wlan'' \<or> (length ifc = 5 \<and> take 4 ifc = ''wlan'' \<and> re_digit (ifc ! 4)))"

definition valid_name :: "string \<Rightarrow> bool" where
  "valid_name nm = (nm \<noteq> [] \<and> list_all re_word nm)"

text \<open>
  Text without two whitespace characters next to each other; keys and values that an
  option line gives back as they are.
\<close>

fun no_runs :: "string \<Rightarrow> bool" where
  "no_runs (c # d # cs) = (\<not> (isspace c \<and> isspace d) \<and> no_runs (d # cs))"
| "no_runs cs = True"

definition clean_key :: "string \<Rightarrow> bool" where
  "clean_key k = (k \<noteq> [] \<and> list_all (\<lambda>c. \<not> isspace c) k)"

definition clean_value :: "string \<Rightarrow> bool" where
  "clean_value v =
     (v \<noteq> [] \<and> \<not> isspace (hd v) \<and> \<not> isspace (last v) \<and> no_runs v
      \<and> list_all (\<lambda>c. \<not> line_boundary c) v)"

definition writable :: "scheme \<Rightarrow> bool" where
  "writable s =
     (valid_interface (interface s) \<and> valid_name (name s)
      \<and> distinct (map fst (options s))
      \<and> list_all (\<lambda>kv. clean_key (fst kv) \<and> clean_value (snd kv)) (options s))"

subsection \<open>Example schemes and files\<close>

definition always_ok :: "nat runner" where
  "always_ok argv w = ((0, ''done''), Suc w)"

definition linked :: "(nat, string) lookup" where
  "linked s w = (if w = 2 then Some ''link'' else None, w)"

definition unlinked :: "(nat, string) lookup" where
  "unlinked s w = (None, w)"

definition unrelated_text :: string where
  "unrelated_text = ''# c\<newline>\<newline>iface eth0 inet dhcp\<newline>    a b\<newline>iface wlan0 inet dhcp\<newline>''"

definition repeated_key_text :: string where
  "repeated_key_text =
     ''iface wlan0-home inet dhcp\<newline>    wpa-ssid cafe\<newline>    wpa-psk one\<newline>    wpa-ssid bar\<newline>''"

definition home :: scheme where
  "home = \<lparr>interface = ''wlan0'', name = ''home'', options = [(''wpa-ssid'', ''cafe'')]\<rparr>"

definition two_stanzas :: string where
  "two_stanzas =
     ''iface wlan0-home inet dhcp\<newline>    wpa-ssid cafe\<newline>\<newline>iface wlan0-work inet dhcp\<newline>    wpa-ssid desk\<newline>''"

definition crlf_file :: string where
  "crlf_file = ''# keep'' @ [CHR 0x0D, CHR 0x0A]"

definition padded_stanza :: string where
  "padded_stanza = '' iface wlan0-home inet dhcp\<newline>    wpa-ssid cafe\<newline>\<newline>''"


definition office :: scheme where
  "office = \<lparr>interface = ''wlan0'', name = ''office'',
             options = [(''wpa-ssid'', ''My Net''), (''wpa-psk'', ''s3cret'')]\<rparr>"

definition spaced :: scheme where
  "spaced = \<lparr>interface = ''wlan0'', name = ''home'', options = [(''wpa-ssid'', ''My  Net'')]\<rparr>"

section \<open>Properties of the configuration builder\<close>

text \<open>
  C6. For a cell that is not encrypted, whatever the passkey, \<open>configuration\<close> returns the
  dictionary with exactly the two items \<^verbatim>\<open>wireless-essid\<close>, bound to the cell's SSID,
  and \<^verbatim>\<open>wireless-channel\<close>, bound to \<^verbatim>\<open>auto\<close>.
\<close>

theorem configuration_unencrypted:
  "\<not> encrypted cell \<Longrightarrow>
     configuration hexread cell passkey =
       Inr [(''wireless-essid'', Str (ssid cell)), (''wireless-channel'', Str ''auto'')]"
  by (simp add: configuration_def)

theorem configuration_unencrypted_witness:
  "\<not> encrypted \<lparr>ssid = ''cafe'', encrypted = False, encryption_type = ''''\<rparr> \<and>
   configuration (\<lambda>p s i n. replicate (2 * n) CHR ''0'')
       \<lparr>ssid = ''cafe'', encrypted = False, encryption_type = ''''\<rparr> (Some ''secret'') =
     Inr [(''wireless-essid'', Str ''cafe''), (''wireless-channel'', Str ''auto'')]"
  using configuration_unencrypted
    [of "\<lparr>ssid = ''cafe'', encrypted = False, encryption_type = ''''\<rparr>"
        "\<lambda>p s i n. replicate (2 * n) CHR ''0''" "Some ''secret''"]
  by simp

text \<open>
  C5. For an encrypted cell whose encryption type neither starts with \<^verbatim>\<open>wpa\<close> nor is
  \<^verbatim>\<open>wep\<close>, \<open>configuration\<close> returns no dictionary: it raises the error the source uses
  for an encryption it does not support, \<^verbatim>\<open>NotImplementedError\<close>.
\<close>

theorem configuration_unsupported:
  assumes "encrypted cell"
    and "\<not> startswith (encryption_type cell) ''wpa''"
    and "encryption_type cell \<noteq> ''wep''"
  shows "configuration hexread cell passkey = Inl NotImplementedError"
  using assms by (simp add: configuration_def)

theorem configuration_unsupported_witness:
  "encrypted \<lparr>ssid = ''cafe'', encrypted = True, encryption_type = ''eap''\<rparr> \<and>
   \<not> startswith (encryption_type \<lparr>ssid = ''cafe'', encrypted = True, encryption_type = ''eap''\<rparr>) ''wpa'' \<and>
   encryption_type \<lparr>ssid = ''cafe'', encrypted = True, encryption_type = ''eap''\<rparr> \<noteq> ''wep'' \<and>
   configuration (\<lambda>p s i n. replicate (2 * n) CHR ''0'')
       \<lparr>ssid = ''cafe'', encrypted = True, encryption_type = ''eap''\<rparr> (Some ''secret'') =
     Inl NotImplementedError"
  using configuration_unsupported
    [of "\<lparr>ssid = ''cafe'', encrypted = True, encryption_type = ''eap''\<rparr>"
        "\<lambda>p s i n. replicate (2 * n) CHR ''0''" "Some ''secret''"]
  by (simp add: startswith_def)

text \<open>
  C4. For an encrypted cell whose encryption type starts with \<^verbatim>\<open>wpa\<close> and a supplied
  secret, \<open>configuration\<close> returns exactly the dictionary of \<^verbatim>\<open>wpa-ssid\<close> (the SSID),
  \<^verbatim>\<open>wpa-psk\<close> (the key) and \<^verbatim>\<open>wireless-channel\<close> (\<^verbatim>\<open>auto\<close>). The key is the secret
  itself when that has 64 characters; otherwise it is what PBKDF2 derives from the
  secret with the SSID as salt and 4096 iterations, read as 32 octets in hexadecimal,
  which is 64 hexadecimal digits by the contract of \<^verbatim>\<open>hexread\<close>: twice as many digits
  as octets.
\<close>

theorem configuration_wpa:
  assumes "encrypted cell"
    and "startswith (encryption_type cell) ''wpa''"
    and contract: "\<And>p s i n. length (hexread p s i n) = 2 * n \<and> list_all hexdigit (hexread p s i n)"
  shows "\<exists>psk. configuration hexread cell (Some secret) =
             Inr [(''wpa-ssid'', Str (ssid cell)), (''wpa-psk'', Str psk),
                  (''wireless-channel'', Str ''auto'')]
           \<and> (if length secret = 64 then psk = secret
              else psk = hexread secret (ssid cell) 4096 32 \<and> length psk = 64
                   \<and> list_all hexdigit psk)"
proof (cases "length secret = 64")
  case True
  with assms(1,2) show ?thesis by (simp add: configuration_def)
next
  case False
  from contract [of secret "ssid cell" 4096 32]
  have "length (hexread secret (ssid cell) 4096 32) = 64"
    and "list_all hexdigit (hexread secret (ssid cell) 4096 32)" by simp_all
  with False assms(1,2) show ?thesis by (simp add: configuration_def)
qed

lemma zeros_contract:
  "length ((\<lambda>p s i n. replicate (2 * n) CHR ''0'') p s i n) = 2 * n \<and>
   list_all hexdigit ((\<lambda>p s i n. replicate (2 * n) CHR ''0'') p s i n)"
  by (simp add: list_all_iff hexdigit_def code_in_def)

theorem configuration_wpa_witness:
  "configuration (\<lambda>p s i n. replicate (2 * n) CHR ''0'')
       \<lparr>ssid = ''cafe'', encrypted = True, encryption_type = ''wpa2''\<rparr> (Some ''secret'') =
     Inr [(''wpa-ssid'', Str ''cafe''), (''wpa-psk'', Str (replicate 64 CHR ''0'')),
          (''wireless-channel'', Str ''auto'')]"
proof -
  let ?c = "\<lparr>ssid = ''cafe'', encrypted = True, encryption_type = ''wpa2''\<rparr>"
  have e: "encrypted ?c" by simp
  have w: "startswith (encryption_type ?c) ''wpa''" by (simp add: startswith_def)
  from configuration_wpa [of ?c "\<lambda>p s i n. replicate (2 * n) CHR ''0''" "''secret''", OF e w zeros_contract]
  show ?thesis by auto
qed

section \<open>Properties of activation\<close>

lemma printable_facts:
  assumes "printable c"
  shows "c \<noteq> CHR 0x09" and "c \<noteq> CHR 0x0A" and "c \<noteq> CHR 0x0D"
  using assms by (auto simp: printable_def code_in_def)

lemma repr_char_plain:
  "printable c \<Longrightarrow> c \<noteq> q \<Longrightarrow> c \<noteq> CHR 0x5C \<Longrightarrow> repr_char q c = [c]"
  by (simp add: repr_char_def printable_facts)

lemma concat_singletons: "\<forall>c \<in> set x. f c = [c] \<Longrightarrow> concat (map f x) = x"
  by (induction x) simp_all

lemma repr_str_plain: "plain x \<Longrightarrow> repr_str x = CHR 0x27 # x @ [CHR 0x27]"
proof -
  assume p: "plain x"
  then have "CHR 0x27 \<notin> set x" by (auto simp: plain_def list_all_iff)
  then have q: "repr_str x = CHR 0x27 # concat (map (repr_char CHR 0x27) x) @ [CHR 0x27]"
    by (simp add: repr_str_def Let_def)
  from p have "\<forall>c \<in> set x. repr_char CHR 0x27 c = [c]"
    by (simp add: plain_def list_all_iff repr_char_plain)
  then have "concat (map (repr_char CHR 0x27) x) = x" by (rule concat_singletons)
  with q show ?thesis by simp
qed

lemma hexval_digits:
  "list_all (\<lambda>n. hexval (''0123456789abcdef'' ! n) = n) [0..<16]"
  by (simp add: upt_rec hexval_def code_in_def)

lemma hexval_digit: "n < 16 \<Longrightarrow> hexval (''0123456789abcdef'' ! n) = n"
proof -
  assume "n < 16"
  then have "n \<in> set [0..<16]" by simp
  with hexval_digits show ?thesis by (simp only: list_all_iff)
qed

lemma hex2_decodes:
  "hex2 c = [h1, h2] \<Longrightarrow> char_of (16 * hexval h1 + hexval h2) = c"
proof -
  assume h: "hex2 c = [h1, h2]"
  let ?n = "of_char c :: nat"
  have "?n < 16 * 16" by simp
  then have d: "?n div 16 < 16" by (rule less_mult_imp_div_less)
  have m: "?n mod 16 < 16" by simp
  from h have "h1 = ''0123456789abcdef'' ! (?n div 16)" and "h2 = ''0123456789abcdef'' ! (?n mod 16)"
    by (simp_all add: hex2_def)
  then have "hexval h1 = ?n div 16" and "hexval h2 = ?n mod 16"
    using d m by (simp_all only: hexval_digit)
  then have "16 * hexval h1 + hexval h2 = ?n" by simp
  then show ?thesis by simp
qed

lemma hex2_shape: "\<exists>h1 h2. hex2 c = [h1, h2]"
  by (simp add: hex2_def)

lemma unescape_repr_char:
  assumes q: "q = CHR 0x27 \<or> q = CHR 0x22"
  shows "unescape q (repr_char q c @ u) = Some (c, u)"
proof -
  from q have qs: "q \<noteq> CHR 0x5C" "CHR ''t'' \<noteq> q" "CHR ''n'' \<noteq> q" "CHR ''r'' \<noteq> q" "CHR ''x'' \<noteq> q"
    by auto
  consider "c = q \<or> c = CHR 0x5C" | "c \<noteq> q" "c \<noteq> CHR 0x5C" "c = CHR 0x09"
    | "c \<noteq> q" "c \<noteq> CHR 0x5C" "c = CHR 0x0A" | "c \<noteq> q" "c \<noteq> CHR 0x5C" "c = CHR 0x0D"
    | "c \<noteq> q" "c \<noteq> CHR 0x5C" "c \<noteq> CHR 0x09" "c \<noteq> CHR 0x0A" "c \<noteq> CHR 0x0D" "printable c"
    | "c \<noteq> q" "c \<noteq> CHR 0x5C" "c \<noteq> CHR 0x09" "c \<noteq> CHR 0x0A" "c \<noteq> CHR 0x0D" "\<not> printable c"
    by blast
  then show ?thesis
  proof cases
    case 1
    then have "repr_char q c = [CHR 0x5C, c]" by (simp add: repr_char_def)
    with 1 show ?thesis by auto
  next
    case 2
    then have "repr_char q c = [CHR 0x5C, CHR ''t'']" by (simp add: repr_char_def)
    with 2 qs show ?thesis by simp
  next
    case 3
    then have "repr_char q c = [CHR 0x5C, CHR ''n'']" by (simp add: repr_char_def)
    with 3 qs show ?thesis by simp
  next
    case 4
    then have "repr_char q c = [CHR 0x5C, CHR ''r'']" by (simp add: repr_char_def)
    with 4 qs show ?thesis by simp
  next
    case 5
    then have "repr_char q c = [c]" by (simp add: repr_char_def)
    with 5 show ?thesis by simp
  next
    case 6
    obtain h1 h2 where h: "hex2 c = [h1, h2]" using hex2_shape by blast
    with 6 have "repr_char q c = [CHR 0x5C, CHR ''x'', h1, h2]" by (simp add: repr_char_def)
    with qs hex2_decodes [OF h] show ?thesis by simp
  qed
qed

lemma repr_char_cancel:
  assumes "q = CHR 0x27 \<or> q = CHR 0x22"
    and "repr_char q c @ u = repr_char q c' @ v"
  shows "c = c' \<and> u = v"
proof -
  have "Some (c, u) = unescape q (repr_char q c @ u)"
    by (simp only: unescape_repr_char [OF assms(1)])
  also have "\<dots> = unescape q (repr_char q c' @ v)"
    by (simp only: assms(2))
  also have "\<dots> = Some (c', v)"
    by (rule unescape_repr_char [OF assms(1)])
  finally show ?thesis by simp
qed

lemma repr_char_head:
  assumes "q = CHR 0x27 \<or> q = CHR 0x22"
  shows "\<exists>b bs. repr_char q c = b # bs \<and> b \<noteq> q"
proof -
  from assms have "q \<noteq> CHR 0x5C" by auto
  then show ?thesis by (auto simp: repr_char_def hex2_def)
qed

lemma repr_body_cancel:
  assumes q: "q = CHR 0x27 \<or> q = CHR 0x22"
  shows "concat (map (repr_char q) x) @ q # u = concat (map (repr_char q) y) @ q # v
           \<Longrightarrow> x = y \<and> u = v"
proof (induction x arbitrary: y)
  case Nil
  show ?case
  proof (cases y)
    case Nil
    with Nil.prems show ?thesis by simp
  next
    case (Cons c ys)
    obtain b bs where "repr_char q c = b # bs" and "b \<noteq> q"
      using repr_char_head [OF q] by blast
    with Nil.prems Cons show ?thesis by simp
  qed
next
  case (Cons c xs)
  show ?case
  proof (cases y)
    case Nil
    obtain b bs where "repr_char q c = b # bs" and "b \<noteq> q"
      using repr_char_head [OF q] by blast
    with Cons.prems Nil show ?thesis by simp
  next
    case (Cons c' ys)
    with Cons.prems
    have "repr_char q c @ (concat (map (repr_char q) xs) @ q # u) =
          repr_char q c' @ (concat (map (repr_char q) ys) @ q # v)"
      by simp
    with q have "c = c'" and "concat (map (repr_char q) xs) @ q # u = concat (map (repr_char q) ys) @ q # v"
      using repr_char_cancel by blast+
    with Cons.IH Cons show ?thesis by simp
  qed
qed

lemma repr_str_shape:
  "\<exists>q. (q = CHR 0x27 \<or> q = CHR 0x22) \<and> repr_str x = q # concat (map (repr_char q) x) @ [q]"
  by (simp add: repr_str_def Let_def)

lemma repr_str_cancel:
  assumes "repr_str x @ u = repr_str y @ v"
  shows "x = y \<and> u = v"
proof -
  obtain q where q: "q = CHR 0x27 \<or> q = CHR 0x22"
    and x: "repr_str x = q # concat (map (repr_char q) x) @ [q]"
    using repr_str_shape by blast
  obtain q' where "q' = CHR 0x27 \<or> q' = CHR 0x22"
    and y: "repr_str y = q' # concat (map (repr_char q') y) @ [q']"
    using repr_str_shape by blast
  from assms have "q' = q" unfolding x y by simp
  with assms have "concat (map (repr_char q) x) @ q # u = concat (map (repr_char q) y) @ q # v"
    unfolding x y by simp
  with q show ?thesis by (rule repr_body_cancel)
qed

lemma scheme_repr_names:
  assumes "scheme_repr s' = scheme_repr s"
  shows "interface s' = interface s \<and> name s' = name s"
proof -
  from assms have "repr_str (interface s') @ ('', name='' @ repr_str (name s') @ '', options='' @ repr_dict (options s'))
    = repr_str (interface s) @ ('', name='' @ repr_str (name s) @ '', options='' @ repr_dict (options s))"
    by (simp add: scheme_repr_def)
  then have i: "interface s' = interface s"
    and "'', name='' @ repr_str (name s') @ '', options='' @ repr_dict (options s')
       = '', name='' @ repr_str (name s) @ '', options='' @ repr_dict (options s)"
    using repr_str_cancel by blast+
  then have "repr_str (name s') @ ('', options='' @ repr_dict (options s'))
       = repr_str (name s) @ ('', options='' @ repr_dict (options s))"
    by simp
  then have "name s' = name s" using repr_str_cancel by blast
  with i show ?thesis by simp
qed

text \<open>
  C8. When the down command and then the up command exit with status 0, \<open>activate\<close>
  returns the connection exactly when the lookup of the current connection finds one for
  the scheme, and raises \<^verbatim>\<open>ConnectionError\<close> exactly when the lookup finds none. The
  message of the error is \<^verbatim>\<open>Failed to connect to\<close> followed by the representation of the
  scheme, which holds the representations of its interface, name and options. An
  interface and a name of printable characters without apostrophe and backslash stand in
  it as they are, between apostrophes; and in every case the interface and the name can
  be told from the representation: no scheme with another interface or another name has
  the same.
\<close>

theorem activate_verifies_connection:
  assumes down: "run [''/sbin/ifdown'', interface s] w = ((0, out1), w1)"
    and up: "run (''/sbin/ifup'' # as_args s) w1 = ((0, out2), w2)"
    and lookup: "current_for_scheme s w2 = (r, w3)"
  shows "(fst (activate run current_for_scheme s w) = Inr c \<longleftrightarrow> r = Some c)
       \<and> ((\<exists>e. fst (activate run current_for_scheme s w) = Inl e) \<longleftrightarrow> r = None)
       \<and> (r = None \<longrightarrow>
            fst (activate run current_for_scheme s w) =
              Inl (ConnectionError (''Failed to connect to '' @ scheme_repr s)))
       \<and> scheme_repr s =
            ''Scheme(interface='' @ repr_str (interface s) @ '', name='' @ repr_str (name s)
              @ '', options='' @ repr_dict (options s)
       \<and> (plain (interface s) \<and> plain (name s) \<longrightarrow>
            scheme_repr s =
              ''Scheme(interface='' @ [CHR 0x27] @ interface s @ [CHR 0x27]
                @ '', name='' @ [CHR 0x27] @ name s @ [CHR 0x27]
                @ '', options='' @ repr_dict (options s))
       \<and> (\<forall>s'. scheme_repr s' = scheme_repr s \<longrightarrow>
              interface s' = interface s \<and> name s' = name s)"
proof (intro conjI allI impI)
  show "(fst (activate run current_for_scheme s w) = Inr c) = (r = Some c)"
    using assms by (cases r) (auto simp: activate_def check_output_def)
  show "(\<exists>e. fst (activate run current_for_scheme s w) = Inl e) = (r = None)"
    using assms by (cases r) (auto simp: activate_def check_output_def)
  show "fst (activate run current_for_scheme s w) =
      Inl (ConnectionError (''Failed to connect to '' @ scheme_repr s))" if "r = None"
    using assms that by (simp add: activate_def check_output_def)
  show "scheme_repr s =
      ''Scheme(interface='' @ repr_str (interface s) @ '', name='' @ repr_str (name s)
        @ '', options='' @ repr_dict (options s)"
    by (simp add: scheme_repr_def)
  show "scheme_repr s =
      ''Scheme(interface='' @ [CHR 0x27] @ interface s @ [CHR 0x27]
        @ '', name='' @ [CHR 0x27] @ name s @ [CHR 0x27]
        @ '', options='' @ repr_dict (options s)"
    if "plain (interface s) \<and> plain (name s)"
    using that by (simp add: scheme_repr_def repr_str_plain)
  show "interface s' = interface s" if "scheme_repr s' = scheme_repr s" for s'
    using scheme_repr_names [OF that] by (rule conjunct1)
  show "name s' = name s" if "scheme_repr s' = scheme_repr s" for s'
    using scheme_repr_names [OF that] by (rule conjunct2)
qed

lemma plain_examples: "plain ''wlan0''" "plain ''home''" "plain ''wpa-ssid''" "plain ''cafe''"
  by (simp_all add: plain_def printable_def code_in_def)

lemma repr_dict_home: "repr_dict [(''wpa-ssid'', ''cafe'')] = ''{'wpa-ssid': 'cafe'}''"
proof -
  have k: "repr_str ''wpa-ssid'' = CHR 0x27 # ''wpa-ssid'' @ [CHR 0x27]"
    by (rule repr_str_plain) (rule plain_examples)
  have v: "repr_str ''cafe'' = CHR 0x27 # ''cafe'' @ [CHR 0x27]"
    by (rule repr_str_plain) (rule plain_examples)
  show ?thesis by (simp add: repr_dict_def k v)
qed

lemma scheme_repr_home:
  "scheme_repr home = ''Scheme(interface='wlan0', name='home', options={'wpa-ssid': 'cafe'}''"
proof -
  have i: "repr_str ''wlan0'' = CHR 0x27 # ''wlan0'' @ [CHR 0x27]"
    by (rule repr_str_plain) (rule plain_examples)
  have n: "repr_str ''home'' = CHR 0x27 # ''home'' @ [CHR 0x27]"
    by (rule repr_str_plain) (rule plain_examples)
  show ?thesis by (simp add: scheme_repr_def home_def i n repr_dict_home)
qed

theorem activate_verifies_connection_witness:
  "fst (activate always_ok linked home 0) = Inr ''link''
   \<and> fst (activate always_ok unlinked home 0)
     = Inl (ConnectionError
         ''Failed to connect to Scheme(interface='wlan0', name='home', options={'wpa-ssid': 'cafe'}'')
   \<and> scheme_repr \<lparr>interface = ''wlan1'', name = ''home'', options = [(''wpa-ssid'', ''cafe'')]\<rparr>
       \<noteq> scheme_repr home"
proof (intro conjI)
  have d: "always_ok [''/sbin/ifdown'', interface home] 0 = ((0, ''done''), 1)"
    by (simp add: always_ok_def)
  have u: "always_ok (''/sbin/ifup'' # as_args home) 1 = ((0, ''done''), 2)"
    by (simp add: always_ok_def)
  have l1: "linked home 2 = (Some ''link'', 2)" by (simp add: linked_def)
  have l2: "unlinked home 2 = (None, 2)" by (simp add: unlinked_def)
  note found = activate_verifies_connection
      [where run = always_ok and s = home and w = 0 and current_for_scheme = linked
         and c = "''link''", OF d u l1]
  note lost = activate_verifies_connection
      [where run = always_ok and s = home and w = 0 and current_for_scheme = unlinked
         and c = "''link''", OF d u l2]
  from found [THEN conjunct1]
  show "fst (activate always_ok linked home 0) = Inr ''link''"
    by simp
  from lost [THEN conjunct2, THEN conjunct2, THEN conjunct1]
  have "fst (activate always_ok unlinked home 0)
      = Inl (ConnectionError (''Failed to connect to '' @ scheme_repr home))"
    by simp
  then show "fst (activate always_ok unlinked home 0)
      = Inl (ConnectionError
         ''Failed to connect to Scheme(interface='wlan0', name='home', options={'wpa-ssid': 'cafe'}'')"
    by (simp only: scheme_repr_home) simp
  show "scheme_repr \<lparr>interface = ''wlan1'', name = ''home'', options = [(''wpa-ssid'', ''cafe'')]\<rparr>
       \<noteq> scheme_repr home"
  proof
    assume same: "scheme_repr \<lparr>interface = ''wlan1'', name = ''home'', options = [(''wpa-ssid'', ''cafe'')]\<rparr>
       = scheme_repr home"
    note names = lost [THEN conjunct2, THEN conjunct2, THEN conjunct2, THEN conjunct2,
        THEN conjunct2, THEN spec, THEN mp]
    from names [OF same]
    have "interface \<lparr>interface = ''wlan1'', name = ''home'', options = [(''wpa-ssid'', ''cafe'')]\<rparr>
       = interface home"
      by (rule conjunct1)
    then show False by (simp add: home_def)
  qed
qed

section \<open>Properties of the parser\<close>

lemma read_options_shorter:
  "read_options opts ls = Inr (opts', rest) \<Longrightarrow> length rest \<le> length ls"
proof (induction ls arbitrary: opts)
  case Nil
  then show ?case by simp
next
  case (Cons l ls)
  show ?case
  proof (cases "startswith l '' ''")
    case False
    with Cons.prems show ?thesis by simp
  next
    case True
    with Cons.prems obtain key val where "read_options (dict_set opts key val) ls = Inr (opts', rest)"
      by (auto split: sum.splits)
    from Cons.IH [OF this] show ?thesis by simp
  qed
qed

lemma all_dropWhile: "(\<forall>x \<in> set (dropWhile P xs). P x) \<longleftrightarrow> (\<forall>x \<in> set xs. P x)"
  by (induction xs) auto

lemma strip_empty_iff: "strip s = [] \<longleftrightarrow> (\<forall>c \<in> set s. isspace c)"
proof -
  have "strip s = [] \<longleftrightarrow> (\<forall>x \<in> set (rev (dropWhile isspace s)). isspace x)"
    unfolding strip_def by (simp only: rev_is_Nil_conv dropWhile_eq_Nil_conv)
  also have "\<dots> \<longleftrightarrow> (\<forall>x \<in> set (dropWhile isspace s). isspace x)"
    by (simp only: set_rev)
  finally show ?thesis by (simp only: all_dropWhile)
qed

lemma space_not_letter_i: "isspace c \<Longrightarrow> c \<noteq> CHR ''i''"
  by (auto simp: isspace_def)

lemma after_prefix_Cons:
  "after_prefix (p # ps) (c # cs) = (if p = c then after_prefix ps cs else None)"
  by (simp add: after_prefix_def startswith_def)

lemma after_prefix_Nil: "after_prefix (p # ps) [] = None"
  by (simp add: after_prefix_def startswith_def)

lemma indented_no_match: "indented line \<Longrightarrow> scheme_re_match line = None"
proof -
  assume a: "indented line"
  then obtain c cs where l: "line = c # cs" and c: "isspace c"
    by (cases line) (simp_all add: indented_def)
  from c have "CHR ''i'' \<noteq> c" using space_not_letter_i by blast
  then have "after_prefix ''iface'' line = None"
    unfolding l by (simp only: after_prefix_Cons if_False)
  then show ?thesis by (simp add: scheme_re_match_def)
qed

lemma blank_cases: "strip line = [] \<Longrightarrow> line = [] \<or> indented line"
  by (cases line) (simp_all add: strip_empty_iff indented_def)

lemma not_names_scheme_cases:
  "\<not> names_scheme l \<Longrightarrow> scheme_re_match l = None \<or> (\<exists>ifc. scheme_re_match l = Some (ifc, None))"
  by (cases "scheme_re_match l") (auto simp: names_scheme_def split: option.splits)

lemma extract_lines_unrelated:
  "\<forall>l \<in> set ls. \<not> names_scheme l \<Longrightarrow> extract_lines ls = ([], None)"
proof (induction ls)
  case Nil
  then show ?case by simp
next
  case (Cons l ls)
  then have rest: "extract_lines ls = ([], None)" by simp
  from Cons.prems have "\<not> names_scheme l" by simp
  from not_names_scheme_cases [OF this] show ?case
  proof (elim disjE exE)
    assume "scheme_re_match l = None"
    then show ?thesis by (simp add: rest)
  next
    fix ifc
    assume "scheme_re_match l = Some (ifc, None)"
    then show ?thesis by (simp add: rest)
  qed
qed

lemma comment_no_match: "startswith l ''#'' \<Longrightarrow> scheme_re_match l = None"
proof -
  assume "startswith l ''#''"
  then obtain cs where l: "l = CHR ''#'' # cs"
    by (cases l) (simp_all add: startswith_def)
  have "after_prefix ''iface'' l = None"
    unfolding l by (simp add: after_prefix_Cons)
  then show ?thesis by (simp add: scheme_re_match_def)
qed

lemma empty_no_match: "scheme_re_match [] = None"
  by (simp add: scheme_re_match_def after_prefix_Nil)

text \<open>
  C7. A text in which every line is a comment (it starts with \<^verbatim>\<open>#\<close>), blank, an
  indented line of some stanza, or a line on which the pattern does not find both the
  \<^verbatim>\<open>wlan\<close> interface and the hyphen with a name (such as \<^verbatim>\<open>iface eth0 inet dhcp\<close>): the
  parser yields no scheme from it and ends without an exception.
\<close>

theorem parser_tolerates_unrelated_lines:
  assumes "\<forall>l \<in> set (splitlines text).
             startswith l ''#'' \<or> strip l = [] \<or> indented l \<or> \<not> names_scheme l"
  shows "extract_schemes text = ([], None)"
proof -
  have "\<not> names_scheme l" if "l \<in> set (splitlines text)" for l
  proof -
    from assms that
    consider "startswith l ''#''" | "l = []" | "indented l" | "\<not> names_scheme l"
      using blank_cases by blast
    then show ?thesis
    proof cases
      case 1
      then show ?thesis by (simp add: names_scheme_def comment_no_match)
    next
      case 2
      then show ?thesis by (simp add: names_scheme_def empty_no_match)
    next
      case 3
      then show ?thesis by (simp add: names_scheme_def indented_no_match)
    next
      case 4
      then show ?thesis .
    qed
  qed
  then have "extract_lines (splitlines text) = ([], None)"
    using extract_lines_unrelated by blast
  then show ?thesis by (simp only: extract_schemes_def)
qed

lemma unrelated_text_lines:
  "splitlines unrelated_text = [''# c'', [], ''iface eth0 inet dhcp'', ''    a b'', ''iface wlan0 inet dhcp'']"
  by (simp add: unrelated_text_def line_boundary_def)

lemma eth0_unrelated: "scheme_re_match ''iface eth0 inet dhcp'' = None"
  by (simp add: scheme_re_match_def after_prefix_def startswith_def isspace_def)

lemma wlan0_unrelated: "scheme_re_match ''iface wlan0 inet dhcp'' = Some (''wlan0'', None)"
  by (simp add: scheme_re_match_def after_prefix_def startswith_def isspace_def
      re_digit_def code_in_def)

theorem parser_tolerates_unrelated_lines_witness:
  "extract_schemes unrelated_text = ([], None)"
proof -
  have "startswith ''# c'' ''#''" by (simp add: startswith_def)
  moreover have "strip [] = []" by (simp add: strip_def)
  moreover have "\<not> names_scheme ''iface eth0 inet dhcp''"
    by (simp add: names_scheme_def eth0_unrelated)
  moreover have "indented ''    a b''" by (simp add: indented_def isspace_def)
  moreover have "\<not> names_scheme ''iface wlan0 inet dhcp''"
    by (simp add: names_scheme_def wlan0_unrelated)
  ultimately have "\<forall>l \<in> set (splitlines unrelated_text).
          startswith l ''#'' \<or> strip l = [] \<or> indented l \<or> \<not> names_scheme l"
    unfolding unrelated_text_lines by (simp only: list.set ball_simps simp_thms)
  then show ?thesis by (rule parser_tolerates_unrelated_lines)
qed

lemma keys_dict_set:
  "map fst (dict_set d k v) = (if k \<in> set (map fst d) then map fst d else map fst d @ [k])"
  by (induction d) (force simp: image_iff)+

lemma map_of_dict_set: "map_of (dict_set d k v) = (map_of d)(k \<mapsto> v)"
  by (induction d) (auto simp: fun_eq_iff)

lemma set_first_occurrences: "set (first_occurrences xs) = set xs"
  by (induction xs) auto

lemma distinct_first_occurrences: "distinct (first_occurrences xs)"
  by (induction xs) (auto simp: set_first_occurrences)

lemma first_occurrences_snoc:
  "first_occurrences (xs @ [x]) =
     (if x \<in> set xs then first_occurrences xs else first_occurrences xs @ [x])"
  by (induction xs) auto

lemma assign_all_snoc: "assign_all d (kvs @ [(k, v)]) = dict_set (assign_all d kvs) k v"
  by (simp add: assign_all_def)

lemma keys_assign_all: "map fst (assign_all [] kvs) = first_occurrences (map fst kvs)"
proof (induction kvs rule: rev_induct)
  case Nil
  then show ?case by (simp add: assign_all_def)
next
  case (snoc kv kvs)
  obtain k v where kv: "kv = (k, v)" by (cases kv)
  have "set (map fst (assign_all [] kvs)) = set (map fst kvs)"
    by (simp only: snoc.IH set_first_occurrences)
  then show ?case
    unfolding kv assign_all_snoc keys_dict_set
    by (simp add: snoc.IH first_occurrences_snoc)
qed

lemma map_of_assign_all: "map_of (assign_all [] kvs) = map_of (rev kvs)"
proof (induction kvs rule: rev_induct)
  case Nil
  then show ?case by (simp add: assign_all_def)
next
  case (snoc kv kvs)
  obtain k v where kv: "kv = (k, v)" by (cases kv)
  show ?case
    unfolding kv assign_all_snoc map_of_dict_set by (simp add: snoc.IH)
qed

lemma assign_all_distinct:
  "distinct (map fst kvs) \<Longrightarrow> assign_all [] kvs = kvs"
proof (induction kvs rule: rev_induct)
  case Nil
  then show ?case by (simp add: assign_all_def)
next
  case (snoc kv kvs)
  obtain k v where kv: "kv = (k, v)" by (cases kv)
  from snoc.prems have d: "distinct (map fst kvs)" and k: "k \<notin> set (map fst kvs)"
    by (simp_all add: kv)
  have fresh: "k \<notin> set (map fst d) \<Longrightarrow> dict_set d k v = d @ [(k, v)]" for d :: "('a \<times> 'b) list"
    by (induction d) auto
  from snoc.IH [OF d] k show ?case
    unfolding kv assign_all_snoc by (simp add: fresh)
qed

lemma read_options_run:
  assumes "list_all2 (\<lambda>l kv. startswith l '' '' \<and> parse_option l = Inr kv) ls kvs"
    and "rest = [] \<or> \<not> startswith (hd rest) '' ''"
  shows "read_options opts (ls @ rest) = Inr (assign_all opts kvs, rest)"
  using assms(1)
proof (induction ls kvs arbitrary: opts rule: list_all2_induct)
  case Nil
  from assms(2) show ?case
    by (cases rest) (simp_all add: assign_all_def)
next
  case (Cons l ls kv kvs)
  obtain k v where kv: "kv = (k, v)" by (cases kv)
  from Cons.hyps(1) have "startswith l '' ''" and "parse_option l = Inr (k, v)"
    by (simp_all add: kv)
  then show ?case
    by (simp add: Cons.IH kv assign_all_def)
qed

lemma match_starts_iface: "scheme_re_match l = Some m \<Longrightarrow> startswith l ''iface''"
  by (cases "startswith l ''iface''") (simp_all add: scheme_re_match_def after_prefix_def)

lemma starts_iface_facts:
  assumes "startswith l ''iface''"
  shows "\<not> startswith l ''#''" and "\<not> startswith l '' ''" and "l \<noteq> []"
proof -
  from assms obtain cs where l: "l = CHR ''i'' # cs"
    by (cases l) (simp_all add: startswith_def)
  show "\<not> startswith l ''#''" and "\<not> startswith l '' ''" and "l \<noteq> []"
    unfolding l by (simp_all add: startswith_def)
qed

lemma extract_lines_stanza:
  assumes "scheme_re_match h = Some (ifc, Some nm)"
  shows "extract_lines (h # ls) =
     (case read_options [] ls of
        Inl e \<Rightarrow> ([], Some e)
      | Inr (opts, rest) \<Rightarrow>
          (case extract_lines rest of
             (ss, r) \<Rightarrow> (\<lparr>interface = ifc, name = nm, options = opts\<rparr> # ss, r)))"
proof -
  from assms have "startswith h ''iface''" by (rule match_starts_iface)
  then have "\<not> startswith h ''#''" and "h \<noteq> []"
    by (rule starts_iface_facts)+
  with assms show ?thesis by simp
qed

lemma extract_lines_skip:
  assumes "startswith l ''#'' \<or> l = [] \<or> scheme_re_match l = None
           \<or> (\<exists>ifc. scheme_re_match l = Some (ifc, None))"
  shows "extract_lines (l # ls) = extract_lines ls"
  using assms by auto

lemma read_options_append:
  assumes "\<not> startswith x '' ''"
  shows "read_options opts (ls @ x # xs) =
     (case read_options opts ls of Inl e \<Rightarrow> Inl e | Inr (os, r) \<Rightarrow> Inr (os, r @ x # xs))"
proof (induction ls arbitrary: opts)
  case Nil
  with assms show ?case by simp
next
  case (Cons l ls)
  show ?case
  proof (cases "startswith l '' ''")
    case False
    then show ?thesis by simp
  next
    case True
    show ?thesis
    proof (cases "parse_option l")
      case (Inl e)
      with True show ?thesis by simp
    next
      case (Inr kv)
      obtain k v where "kv = (k, v)" by (cases kv)
      with Inr True show ?thesis by (simp add: Cons.IH)
    qed
  qed
qed

lemma extract_lines_append:
  assumes "\<not> startswith x '' ''"
  shows "extract_lines (ls @ x # xs) =
     (case extract_lines ls of
        (ss, Some e) \<Rightarrow> (ss, Some e)
      | (ss, None) \<Rightarrow> (case extract_lines (x # xs) of (ss', r) \<Rightarrow> (ss @ ss', r)))"
proof (induction ls rule: length_induct)
  case (1 ls)
  let ?P = "\<lambda>ls. extract_lines (ls @ x # xs) =
     (case extract_lines ls of
        (ss, Some e) \<Rightarrow> (ss, Some e)
      | (ss, None) \<Rightarrow> (case extract_lines (x # xs) of (ss', r) \<Rightarrow> (ss @ ss', r)))"
  from 1 have IH: "length ys < length ls \<Longrightarrow> ?P ys" for ys by blast
  show ?case
  proof (cases ls)
    case Nil
    show ?thesis
      unfolding Nil by (cases "extract_lines (x # xs)") (simp del: extract_lines.simps(2))
  next
    case (Cons line lines)
    have tail: "?P lines" by (rule IH) (simp add: Cons)
    show ?thesis
    proof (cases "startswith line ''#'' \<or> line = [] \<or> scheme_re_match line = None
           \<or> (\<exists>ifc. scheme_re_match line = Some (ifc, None))")
      case True
      then have a: "extract_lines (line # lines) = extract_lines lines"
        and b: "extract_lines ((line # lines) @ x # xs) = extract_lines (lines @ x # xs)"
        by (simp_all only: extract_lines_skip append_Cons)
      show ?thesis unfolding Cons a b by (rule tail)
    next
      case False
      then obtain ifc nm where m: "scheme_re_match line = Some (ifc, Some nm)"
        by (cases "scheme_re_match line") auto
      show ?thesis
      proof (cases "read_options [] lines")
        case (Inl e)
        then have "read_options [] (lines @ x # xs) = Inl e"
          by (simp add: read_options_append [OF assms])
        with Inl m show ?thesis
          unfolding Cons by (simp add: extract_lines_stanza del: extract_lines.simps)
      next
        case (Inr p)
        obtain opts rest where p: "p = (opts, rest)" by (cases p)
        from Inr p have ro: "read_options [] (lines @ x # xs) = Inr (opts, rest @ x # xs)"
          by (simp add: read_options_append [OF assms])
        from Inr p have "length rest \<le> length lines"
          using read_options_shorter by blast
        then have ih: "?P rest" by (intro IH) (simp add: Cons)
        obtain ss r where er: "extract_lines rest = (ss, r)" by (cases "extract_lines rest")
        obtain ss' r' where ex: "extract_lines (x # xs) = (ss', r')"
          by (cases "extract_lines (x # xs)")
        show ?thesis
          unfolding Cons using m ro Inr p ih er ex
          by (cases r) (simp_all add: extract_lines_stanza del: extract_lines.simps)
      qed
    qed
  qed
qed

text \<open>
  C9. A stanza anywhere in the text, after lines that parse without an exception: a header
  that the pattern matches with a name, then option lines that each start with a space
  and unpack into a key and a value, up to the end or to a line that does not start with
  a space. The parser yields, after the schemes of the lines before and followed by those
  of the lines after, one scheme for the stanza. In its options every key stands once;
  the keys are in the order of their first occurrences among the option lines; and each
  key is bound to the value of its last occurrence (\<open>map_of\<close> finds the first pair with
  the key, here in the reversed list). So a key that is on several option lines is in the
  options once, where it first occurred, with the value it had last.
\<close>

theorem repeated_option_key:
  assumes lines: "splitlines text = before @ header # opt_lines @ rest"
    and before: "extract_lines before = (ss0, None)"
    and header: "scheme_re_match header = Some (ifc, Some nm)"
    and opt_lines: "list_all2 (\<lambda>l kv. startswith l '' '' \<and> parse_option l = Inr kv) opt_lines kvs"
    and rest: "rest = [] \<or> \<not> startswith (hd rest) '' ''"
    and after: "extract_lines rest = (ss1, r)"
  shows "\<exists>opts. extract_schemes text =
                  (ss0 @ \<lparr>interface = ifc, name = nm, options = opts\<rparr> # ss1, r)
           \<and> distinct (map fst opts)
           \<and> map fst opts = first_occurrences (map fst kvs)
           \<and> (\<forall>k \<in> set (map fst kvs). map_of opts k = map_of (rev kvs) k)"
proof -
  let ?opts = "assign_all [] kvs"
  have "read_options [] (opt_lines @ rest) = Inr (?opts, rest)"
    using opt_lines rest by (rule read_options_run)
  with header after
  have stanza: "extract_lines (header # opt_lines @ rest) =
      (\<lparr>interface = ifc, name = nm, options = ?opts\<rparr> # ss1, r)"
    by (simp add: extract_lines_stanza del: extract_lines.simps)
  from header have "startswith header ''iface''" by (rule match_starts_iface)
  then have "\<not> startswith header '' ''" by (rule starts_iface_facts)
  then have "extract_lines (before @ header # opt_lines @ rest) =
      (ss0 @ \<lparr>interface = ifc, name = nm, options = ?opts\<rparr> # ss1, r)"
    by (simp add: extract_lines_append before stanza del: extract_lines.simps)
  then have "extract_schemes text =
      (ss0 @ \<lparr>interface = ifc, name = nm, options = ?opts\<rparr> # ss1, r)"
    by (simp only: extract_schemes_def lines)
  moreover have "map fst ?opts = first_occurrences (map fst kvs)"
    by (rule keys_assign_all)
  moreover from this have "distinct (map fst ?opts)"
    by (simp only: distinct_first_occurrences)
  moreover have "\<forall>k \<in> set (map fst kvs). map_of ?opts k = map_of (rev kvs) k"
    by (simp only: map_of_assign_all) simp
  ultimately show ?thesis by blast
qed

lemma repeated_key_text_lines:
  "splitlines repeated_key_text =
     [] @ ''iface wlan0-home inet dhcp'' # [''    wpa-ssid cafe'', ''    wpa-psk one'', ''    wpa-ssid bar''] @ []"
  by (simp add: repeated_key_text_def line_boundary_def)

lemma wlan0_home_match:
  "scheme_re_match ''iface wlan0-home inet dhcp'' = Some (''wlan0'', Some ''home'')"
  by (simp add: scheme_re_match_def after_prefix_def startswith_def isspace_def
      re_digit_def re_word_def code_in_def)

lemma parse_option_examples:
  "parse_option ''    wpa-ssid cafe'' = Inr (''wpa-ssid'', ''cafe'')"
  "parse_option ''    wpa-psk one'' = Inr (''wpa-psk'', ''one'')"
  "parse_option ''    wpa-ssid bar'' = Inr (''wpa-ssid'', ''bar'')"
  by (simp_all add: parse_option_def strip_def split_once_def isspace_def)

theorem repeated_option_key_witness:
  "\<exists>opts. extract_schemes repeated_key_text =
            ([\<lparr>interface = ''wlan0'', name = ''home'', options = opts\<rparr>], None)
     \<and> distinct (map fst opts)
     \<and> map fst opts = [''wpa-ssid'', ''wpa-psk'']
     \<and> map_of opts ''wpa-ssid'' = Some ''bar''
     \<and> map_of opts ''wpa-psk'' = Some ''one''"
proof -
  have ls: "list_all2 (\<lambda>l kv. startswith l '' '' \<and> parse_option l = Inr kv)
      [''    wpa-ssid cafe'', ''    wpa-psk one'', ''    wpa-ssid bar'']
      [(''wpa-ssid'', ''cafe''), (''wpa-psk'', ''one''), (''wpa-ssid'', ''bar'')]"
    by (simp add: parse_option_examples startswith_def)
  have b: "extract_lines [] = ([], None)" by simp
  from repeated_option_key [OF repeated_key_text_lines b wlan0_home_match ls _ b]
  have "\<exists>opts. extract_schemes repeated_key_text =
            ([\<lparr>interface = ''wlan0'', name = ''home'', options = opts\<rparr>], None)
     \<and> distinct (map fst opts)
     \<and> map fst opts = [''wpa-ssid'', ''wpa-psk'']
     \<and> map_of opts ''wpa-ssid'' = Some ''bar''
     \<and> map_of opts ''wpa-psk'' = Some ''one''
     \<and> map_of opts ''wpa-ssid'' = Some ''bar''"
    by simp
  then show ?thesis by (elim exE conjE) (intro exI conjI; assumption)
qed

section \<open>Properties of the store\<close>

lemma delete_loop_retained:
  "delete_loop hdr skip content ls = content @ concat (retained hdr skip ls)"
  by (induction ls arbitrary: skip content) (simp_all add: Let_def)

lemma retained_skipping:
  "retained hdr True ls = retained hdr False (dropWhile (\<lambda>l. strip l \<noteq> []) ls)"
  by (induction ls) (simp_all add: Let_def)

lemma retained_without_blocks: "retained hdr False ls = without_blocks hdr ls"
proof (induction hdr ls rule: without_blocks.induct)
  case (1 hdr)
  show ?case by simp
next
  case (2 hdr line lines)
  show ?case
  proof (cases "starts_block hdr line")
    case True
    then have "strip line \<noteq> []" and "strip line = hdr"
      by (auto simp: starts_block_def)
    then have "retained hdr False (line # lines) = retained hdr True lines"
      by (simp add: Let_def)
    also have "\<dots> = retained hdr False (dropWhile (\<lambda>l. strip l \<noteq> []) lines)"
      by (rule retained_skipping)
    also have "\<dots> = without_blocks hdr (dropWhile (\<lambda>l. strip l \<noteq> []) lines)"
      using True by (rule "2.IH"(1))
    finally show ?thesis using True by simp
  next
    case False
    then have "retained hdr False (line # lines) = line # retained hdr False lines"
      by (auto simp: starts_block_def Let_def)
    with False "2.IH"(2) show ?thesis by simp
  qed
qed

lemma retained_no_block:
  "\<forall>l \<in> set ls. \<not> starts_block hdr l \<Longrightarrow> retained hdr False ls = ls"
  by (induction ls) (auto simp: starts_block_def Let_def)

lemma retained_has_no_block:
  "l \<in> set (retained hdr skip ls) \<Longrightarrow> \<not> starts_block hdr l"
  by (induction ls arbitrary: skip) (auto simp: starts_block_def Let_def split: if_splits)

lemma retained_idem: "retained hdr False (retained hdr skip ls) = retained hdr skip ls"
  by (rule retained_no_block) (simp add: retained_has_no_block)

lemma concat_file_lines: "concat (file_lines cs) = cs"
  by (induction cs) (auto split: list.splits)

lemma file_lines_terminated:
  "CHR 0x0A \<notin> set b \<Longrightarrow> file_lines (b @ CHR 0x0A # rest) = (b @ [CHR 0x0A]) # file_lines rest"
  by (induction b) auto

lemma file_lines_unterminated:
  "b \<noteq> [] \<Longrightarrow> CHR 0x0A \<notin> set b \<Longrightarrow> file_lines b = [b]"
proof (induction b)
  case Nil
  then show ?case by simp
next
  case (Cons c cs)
  then show ?case by (cases cs) auto
qed

lemma file_lines_concat: "lines_ok ls \<Longrightarrow> file_lines (concat ls) = ls"
proof (induction ls)
  case Nil
  then show ?case by simp
next
  case (Cons l ls)
  then have ok: "lines_ok ls" and IH: "file_lines (concat ls) = ls" by simp_all
  from Cons.prems consider "terminated l" | "unterminated l" "ls = []" by auto
  then show ?case
  proof cases
    case 1
    then obtain b where "l = b @ [CHR 0x0A]" and "CHR 0x0A \<notin> set b"
      by (auto simp: terminated_def)
    then show ?thesis by (simp add: file_lines_terminated IH)
  next
    case 2
    then show ?thesis by (simp add: unterminated_def file_lines_unterminated)
  qed
qed

lemma terminated_Cons: "c \<noteq> CHR 0x0A \<Longrightarrow> terminated l \<Longrightarrow> terminated (c # l)"
proof -
  assume c: "c \<noteq> CHR 0x0A" and "terminated l"
  then obtain b where "l = b @ [CHR 0x0A]" and "CHR 0x0A \<notin> set b"
    by (auto simp: terminated_def)
  with c have "c # l = (c # b) @ [CHR 0x0A] \<and> CHR 0x0A \<notin> set (c # b)" by simp
  then show ?thesis unfolding terminated_def by blast
qed

lemma lines_ok_file_lines: "lines_ok (file_lines cs)"
proof (induction cs)
  case Nil
  then show ?case by simp
next
  case (Cons c cs)
  show ?case
  proof (cases "c = CHR 0x0A")
    case True
    have "terminated [CHR 0x0A]" by (simp add: terminated_def)
    with True Cons.IH show ?thesis by simp
  next
    case False
    show ?thesis
    proof (cases "file_lines cs")
      case Nil
      with False show ?thesis by (simp add: unterminated_def)
    next
      case (Cons l ls)
      with Cons.IH have "terminated l \<or> (unterminated l \<and> ls = [])" and "lines_ok ls"
        by simp_all
      with False have "terminated (c # l) \<or> (unterminated (c # l) \<and> ls = [])"
        by (auto simp: terminated_Cons unterminated_def)
      with \<open>lines_ok ls\<close> False Cons show ?thesis by simp
    qed
  qed
qed

lemma lines_ok_retained: "lines_ok ls \<Longrightarrow> lines_ok (retained hdr skip ls)"
proof (induction ls arbitrary: skip)
  case Nil
  then show ?case by simp
next
  case (Cons l ls)
  then have tail: "lines_ok (retained hdr sk ls)" for sk by simp
  from Cons.prems have "terminated l \<or> (unterminated l \<and> ls = [])" by simp
  then have "terminated l \<or> (unterminated l \<and> retained hdr sk ls = [])" for sk by auto
  with tail show ?case by (simp add: Let_def)
qed

lemma universal_newlines_id: "CHR 0x0D \<notin> set cs \<Longrightarrow> universal_newlines cs = cs"
  by (induction cs rule: universal_newlines.induct) auto

lemma universal_newlines_no_CR: "CHR 0x0D \<notin> set (universal_newlines cs)"
  by (induction cs rule: universal_newlines.induct) auto

lemma splitlines_boundary:
  "line_boundary c \<Longrightarrow> c \<noteq> CHR 0x0D \<Longrightarrow> splitlines (c # cs) = [] # splitlines cs"
  by (cases cs) simp_all

lemma splitlines_CR:
  "splitlines (CHR 0x0D # cs) =
     [] # splitlines (case cs of [] \<Rightarrow> [] | d # ds \<Rightarrow> if d = CHR 0x0A then ds else d # ds)"
  by (cases cs) (simp_all add: line_boundary_def)

lemma splitlines_plain:
  "\<not> line_boundary c \<Longrightarrow>
     splitlines (c # cs) = (case splitlines cs of [] \<Rightarrow> [[c]] | l # ls \<Rightarrow> (c # l) # ls)"
  by (cases cs) (auto simp: line_boundary_def)

lemma LF_boundary: "line_boundary CHR 0x0A" and CR_boundary: "line_boundary CHR 0x0D"
  by (simp_all add: line_boundary_def)

lemma splitlines_universal_newlines: "splitlines (universal_newlines cs) = splitlines cs"
proof (induction cs rule: universal_newlines.induct)
  case 1
  show ?case by simp
next
  case (2 c)
  show ?case by (simp add: LF_boundary CR_boundary)
next
  case (3 c d cs)
  show ?case
  proof (cases "c = CHR 0x0D")
    case True
    show ?thesis
    proof (cases "d = CHR 0x0A")
      case True
      with \<open>c = CHR 0x0D\<close> 3(1) show ?thesis
        by (simp add: splitlines_boundary LF_boundary)
    next
      case False
      with True 3(2) show ?thesis
        by (simp add: splitlines_boundary LF_boundary CR_boundary)
    qed
  next
    case False
    with 3(3) have IH: "splitlines (universal_newlines (d # cs)) = splitlines (d # cs)" by simp
    from False have u: "universal_newlines (c # d # cs) = c # universal_newlines (d # cs)" by simp
    show ?thesis
    proof (cases "line_boundary c")
      case True
      with False show ?thesis
        unfolding u by (simp add: splitlines_boundary IH del: splitlines.simps)
    next
      case nb: False
      then show ?thesis
        unfolding u by (simp add: splitlines_plain IH del: splitlines.simps)
    qed
  qed
qed

lemma extract_schemes_universal_newlines:
  "extract_schemes (universal_newlines cs) = extract_schemes cs"
  by (simp only: extract_schemes_def splitlines_universal_newlines)

lemma delete_text:
  "delete s (Some cs) =
     (Inr (), Some (concat (retained (header_line s) False (file_lines (universal_newlines cs)))))"
  by (simp add: delete_def read_all_def delete_loop_retained)

lemma delete_text_LF:
  "CHR 0x0D \<notin> set cs \<Longrightarrow>
     delete s (Some cs) = (Inr (), Some (concat (retained (header_line s) False (file_lines cs))))"
  by (simp add: delete_text universal_newlines_id)

lemma set_retained: "l \<in> set (retained hdr skip ls) \<Longrightarrow> l \<in> set ls"
  by (induction ls arbitrary: skip) (auto simp: Let_def split: if_splits)

lemma retained_no_CR:
  "CHR 0x0D \<notin> set cs \<Longrightarrow> CHR 0x0D \<notin> set (concat (retained hdr skip (file_lines cs)))"
proof
  assume cs: "CHR 0x0D \<notin> set cs" and "CHR 0x0D \<in> set (concat (retained hdr skip (file_lines cs)))"
  then obtain l where "l \<in> set (retained hdr skip (file_lines cs))" and "CHR 0x0D \<in> set l"
    by auto
  then have "l \<in> set (file_lines cs)" and "CHR 0x0D \<in> set l"
    by (simp_all add: set_retained)
  then have "CHR 0x0D \<in> set (concat (file_lines cs))" by auto
  with cs show False by (simp only: concat_file_lines)
qed

lemma two_stanzas_LF: "CHR 0x0D \<notin> set two_stanzas"
  by (simp add: two_stanzas_def)

lemma padded_stanza_LF: "CHR 0x0D \<notin> set padded_stanza"
  by (simp add: padded_stanza_def)

lemma header_line_home: "header_line home = ''iface wlan0-home inet dhcp''"
  by (simp add: header_line_def home_def)

lemma two_stanzas_lines:
  "file_lines two_stanzas =
     [''iface wlan0-home inet dhcp\<newline>'', ''    wpa-ssid cafe\<newline>'', ''\<newline>'',
      ''iface wlan0-work inet dhcp\<newline>'', ''    wpa-ssid desk\<newline>'']"
  by (simp add: two_stanzas_def)

lemma strip_examples:
  "strip ''iface wlan0-home inet dhcp\<newline>'' = ''iface wlan0-home inet dhcp''"
  "strip ''    wpa-ssid cafe\<newline>'' = ''wpa-ssid cafe''"
  "strip ''\<newline>'' = []"
  "strip ''iface wlan0-work inet dhcp\<newline>'' = ''iface wlan0-work inet dhcp''"
  "strip ''    wpa-ssid desk\<newline>'' = ''wpa-ssid desk''"
  "strip '' iface wlan0-home inet dhcp\<newline>'' = ''iface wlan0-home inet dhcp''"
  by (simp_all add: strip_def isspace_def)

lemma retained_two_stanzas:
  "retained ''iface wlan0-home inet dhcp'' False
     [''iface wlan0-home inet dhcp\<newline>'', ''    wpa-ssid cafe\<newline>'', ''\<newline>'',
      ''iface wlan0-work inet dhcp\<newline>'', ''    wpa-ssid desk\<newline>'']
   = [''\<newline>'', ''iface wlan0-work inet dhcp\<newline>'', ''    wpa-ssid desk\<newline>'']"
  by (simp add: strip_examples)

lemma delete_home_two_stanzas:
  "delete home (Some two_stanzas) =
     (Inr (), Some ''\<newline>iface wlan0-work inet dhcp\<newline>    wpa-ssid desk\<newline>'')"
  by (simp only: delete_text_LF [OF two_stanzas_LF] header_line_home two_stanzas_lines
      retained_two_stanzas) simp

text \<open>
  C10. Deleting a scheme twice leaves the file as deleting it once does, and gives the
  same result: whatever the file holds, or when there is none.
\<close>

theorem delete_idempotent: "delete s (snd (delete s f)) = delete s f"
proof (cases f)
  case None
  then show ?thesis by (simp add: delete_def read_all_def)
next
  case (Some cs)
  let ?kept = "retained (header_line s) False (file_lines (universal_newlines cs))"
  have "lines_ok ?kept" by (intro lines_ok_retained lines_ok_file_lines)
  then have "file_lines (concat ?kept) = ?kept" by (rule file_lines_concat)
  then have again: "retained (header_line s) False (file_lines (concat ?kept)) = ?kept"
    by (simp only: retained_idem)
  have "CHR 0x0D \<notin> set (concat ?kept)"
    using universal_newlines_no_CR by (rule retained_no_CR)
  then have "delete s (Some (concat ?kept)) =
      (Inr (), Some (concat (retained (header_line s) False (file_lines (concat ?kept)))))"
    by (rule delete_text_LF)
  then have "delete s (Some (concat ?kept)) = (Inr (), Some (concat ?kept))"
    by (simp only: again)
  then show ?thesis by (simp only: Some delete_text snd_conv)
qed

theorem delete_idempotent_witness:
  "delete home (snd (delete home (Some two_stanzas))) =
     (Inr (), Some ''\<newline>iface wlan0-work inet dhcp\<newline>    wpa-ssid desk\<newline>'')"
proof -
  have "delete home (snd (delete home (Some two_stanzas))) = delete home (Some two_stanzas)"
    by (rule delete_idempotent)
  also have "\<dots> = (Inr (), Some ''\<newline>iface wlan0-work inet dhcp\<newline>    wpa-ssid desk\<newline>'')"
    by (rule delete_home_two_stanzas)
  finally show ?thesis .
qed

text \<open>
  C2, amended. \<open>delete\<close> writes back what it read, which is the file with every CR LF
  and every lone CR turned into LF, without the blocks of the scheme: a block starts at
  a line whose text, stripped of surrounding whitespace, is
  \<^verbatim>\<open>iface <interface>-<name> inet dhcp\<close>, and runs up to, but not including, the next
  line that is blank after stripping. Every other line is written back as it was read,
  in the same order; in a file without CR these are the lines of the file themselves.
  When no line has the header as its stripped text, what is written back is all that was
  read; for a file without CR that is the file as it was.
\<close>

theorem delete_removes_blocks:
  "delete s (Some cs) =
     (Inr (), Some (concat (without_blocks (header_line s) (file_lines (universal_newlines cs)))))
   \<and> (CHR 0x0D \<notin> set cs \<longrightarrow>
        delete s (Some cs) =
          (Inr (), Some (concat (without_blocks (header_line s) (file_lines cs)))))
   \<and> ((\<forall>l \<in> set (file_lines (universal_newlines cs)). strip l \<noteq> header_line s) \<longrightarrow>
        delete s (Some cs) = (Inr (), Some (universal_newlines cs)))
   \<and> (CHR 0x0D \<notin> set cs \<and> (\<forall>l \<in> set (file_lines cs). strip l \<noteq> header_line s) \<longrightarrow>
        delete s (Some cs) = (Inr (), Some cs))"
proof -
  have general: "delete s (Some cs) =
     (Inr (), Some (concat (without_blocks (header_line s) (file_lines (universal_newlines cs)))))"
    by (simp only: delete_text retained_without_blocks)
  have absent: "delete s (Some cs) = (Inr (), Some (universal_newlines cs))"
    if "\<forall>l \<in> set (file_lines (universal_newlines cs)). strip l \<noteq> header_line s"
  proof -
    from that
    have "\<forall>l \<in> set (file_lines (universal_newlines cs)). \<not> starts_block (header_line s) l"
      by (simp add: starts_block_def)
    then have "retained (header_line s) False (file_lines (universal_newlines cs)) =
        file_lines (universal_newlines cs)"
      by (rule retained_no_block)
    then show ?thesis by (simp only: delete_text concat_file_lines)
  qed
  have same: "universal_newlines cs = cs" if "CHR 0x0D \<notin> set cs"
    using that by (rule universal_newlines_id)
  show ?thesis
  proof (intro conjI impI)
    show "delete s (Some cs) =
       (Inr (), Some (concat (without_blocks (header_line s) (file_lines (universal_newlines cs)))))"
      by (rule general)
  next
    assume "CHR 0x0D \<notin> set cs"
    from general same [OF this]
    show "delete s (Some cs) =
       (Inr (), Some (concat (without_blocks (header_line s) (file_lines cs))))"
      by simp
  next
    assume "\<forall>l \<in> set (file_lines (universal_newlines cs)). strip l \<noteq> header_line s"
    then show "delete s (Some cs) = (Inr (), Some (universal_newlines cs))"
      by (rule absent)
  next
    assume a: "CHR 0x0D \<notin> set cs \<and> (\<forall>l \<in> set (file_lines cs). strip l \<noteq> header_line s)"
    then have eq: "universal_newlines cs = cs" by (simp add: same)
    from a have "\<forall>l \<in> set (file_lines (universal_newlines cs)). strip l \<noteq> header_line s"
      by (simp add: eq)
    from absent [OF this] show "delete s (Some cs) = (Inr (), Some cs)"
      by (simp only: eq)
  qed
qed

lemma without_home_block:
  "without_blocks ''iface wlan0-home inet dhcp''
     [''iface wlan0-home inet dhcp\<newline>'', ''    wpa-ssid cafe\<newline>'', ''\<newline>'',
      ''iface wlan0-work inet dhcp\<newline>'', ''    wpa-ssid desk\<newline>'']
   = [''\<newline>'', ''iface wlan0-work inet dhcp\<newline>'', ''    wpa-ssid desk\<newline>'']"
  by (simp add: starts_block_def strip_examples)

lemma crlf_file_read: "universal_newlines crlf_file = ''# keep\<newline>''"
  by (simp add: crlf_file_def)

lemma keep_line:
  "file_lines ''# keep\<newline>'' = [''# keep\<newline>'']"
  "strip ''# keep\<newline>'' = ''# keep''"
  by (simp_all add: strip_def isspace_def)

lemma keep_no_header:
  "\<forall>l \<in> set (file_lines ''# keep\<newline>''). strip l \<noteq> header_line home"
  by (simp add: keep_line header_line_home)

theorem delete_removes_blocks_witness:
  "delete home (Some two_stanzas) =
     (Inr (), Some ''\<newline>iface wlan0-work inet dhcp\<newline>    wpa-ssid desk\<newline>'')
   \<and> delete home (Some ''# keep\<newline>'') = (Inr (), Some ''# keep\<newline>'')
   \<and> delete home (Some crlf_file) = (Inr (), Some ''# keep\<newline>'')"
proof (intro conjI)
  note blocks = delete_removes_blocks [of home two_stanzas]
  from blocks [THEN conjunct2, THEN conjunct1, THEN mp, OF two_stanzas_LF]
  show "delete home (Some two_stanzas) =
     (Inr (), Some ''\<newline>iface wlan0-work inet dhcp\<newline>    wpa-ssid desk\<newline>'')"
    by (simp only: header_line_home two_stanzas_lines without_home_block) simp
next
  have "CHR 0x0D \<notin> set ''# keep\<newline>''" by simp
  then have "CHR 0x0D \<notin> set ''# keep\<newline>''
      \<and> (\<forall>l \<in> set (file_lines ''# keep\<newline>''). strip l \<noteq> header_line home)"
    using keep_no_header by (rule conjI)
  with delete_removes_blocks [of home "''# keep\<newline>''",
      THEN conjunct2, THEN conjunct2, THEN conjunct2]
  show "delete home (Some ''# keep\<newline>'') = (Inr (), Some ''# keep\<newline>'')"
    by (rule mp)
next
  from keep_no_header
  have "\<forall>l \<in> set (file_lines (universal_newlines crlf_file)). strip l \<noteq> header_line home"
    by (simp only: crlf_file_read)
  with delete_removes_blocks [of home crlf_file, THEN conjunct2, THEN conjunct2, THEN conjunct1]
  have "delete home (Some crlf_file) = (Inr (), Some (universal_newlines crlf_file))"
    by (rule mp)
  then show "delete home (Some crlf_file) = (Inr (), Some ''# keep\<newline>'')"
    by (simp only: crlf_file_read)
qed

lemma padded_stanza_lines:
  "file_lines padded_stanza =
     ['' iface wlan0-home inet dhcp\<newline>'', ''    wpa-ssid cafe\<newline>'', ''\<newline>'']"
  by (simp add: padded_stanza_def)

lemma padded_retained:
  "retained ''iface wlan0-home inet dhcp'' False
     ['' iface wlan0-home inet dhcp\<newline>'', ''    wpa-ssid cafe\<newline>'', ''\<newline>'']
   = [''\<newline>'']"
  by (simp add: strip_examples)

lemma padded_stanza_splitlines:
  "splitlines padded_stanza = ['' iface wlan0-home inet dhcp'', ''    wpa-ssid cafe'', []]"
  by (simp add: padded_stanza_def line_boundary_def)

lemma crlf_file_splitlines: "splitlines crlf_file = [''# keep'']"
  by (simp add: crlf_file_def line_boundary_def)

lemma delete_crlf_file: "delete home (Some crlf_file) = (Inr (), Some ''# keep\<newline>'')"
proof -
  have "retained ''iface wlan0-home inet dhcp'' False [''# keep\<newline>''] = [''# keep\<newline>'']"
    by (simp add: keep_line)
  then show ?thesis
    by (simp only: delete_text crlf_file_read header_line_home keep_line) simp
qed

text \<open>
  Against C2 as stated, on two files in which no line is the header line of the scheme.
  In the first the header stands after a space: \<open>delete\<close> strips the line before it
  compares, and takes the stanza out. In the second the one line ends in CR LF:
  \<open>delete\<close> reads it with LF and writes it back so, and the file is another than before.
\<close>

theorem delete_not_identical_counterexample:
  "header_line home \<notin> set (splitlines padded_stanza)
   \<and> delete home (Some padded_stanza) = (Inr (), Some ''\<newline>'')
   \<and> delete home (Some padded_stanza) \<noteq> (Inr (), Some padded_stanza)
   \<and> header_line home \<notin> set (splitlines crlf_file)
   \<and> delete home (Some crlf_file) = (Inr (), Some ''# keep\<newline>'')
   \<and> delete home (Some crlf_file) \<noteq> (Inr (), Some crlf_file)"
proof (intro conjI)
  show "header_line home \<notin> set (splitlines padded_stanza)"
    by (simp add: header_line_home padded_stanza_splitlines)
  show d: "delete home (Some padded_stanza) = (Inr (), Some ''\<newline>'')"
    by (simp only: delete_text_LF [OF padded_stanza_LF] header_line_home padded_stanza_lines
        padded_retained) simp
  show "delete home (Some padded_stanza) \<noteq> (Inr (), Some padded_stanza)"
    unfolding d by (simp add: padded_stanza_def)
  show "header_line home \<notin> set (splitlines crlf_file)"
    by (simp add: header_line_home crlf_file_splitlines)
  show "delete home (Some crlf_file) = (Inr (), Some ''# keep\<newline>'')"
    by (rule delete_crlf_file)
  show "delete home (Some crlf_file) \<noteq> (Inr (), Some crlf_file)"
    unfolding delete_crlf_file by (simp add: crlf_file_def)
qed


lemma find_raises:
  assumes "extract_schemes cs = (ss, Some e)"
  shows "find_scheme ifc nm (Some cs) = (Inl e, Some cs)"
  using assms
  by (simp add: find_scheme_def where_schemes_def all_schemes_def ensure_file_exists_def read_all_def
      extract_schemes_universal_newlines)


lemma save_parser_error:
  assumes "extract_schemes cs = (ss, Some e)"
  shows "save s (Some cs) = (Inl e, Some cs)"
  using assms by (simp add: save_def find_raises)




section \<open>Writing a scheme and reading it back\<close>

lemma boundary_is_space: "line_boundary c \<Longrightarrow> isspace c"
  by (auto simp: line_boundary_def isspace_def)

lemma word_not_space: "re_word c \<Longrightarrow> \<not> isspace c"
  by (auto simp: re_word_def isspace_def code_in_def)

lemma digit_not_space: "re_digit c \<Longrightarrow> \<not> isspace c"
  by (auto simp: re_digit_def isspace_def code_in_def)

lemma space_is_space: "isspace CHR '' ''"
  by (simp add: isspace_def)

lemma splitlines_line:
  "\<forall>c \<in> set l. \<not> line_boundary c \<Longrightarrow>
     splitlines (l @ CHR 0x0A # rest) = l # splitlines rest"
proof (induction l)
  case Nil
  have lf: "line_boundary CHR 0x0A" by (simp add: line_boundary_def)
  show ?case by (cases rest) (simp_all add: lf)
next
  case (Cons c l)
  then have c: "\<not> line_boundary c" and IH: "splitlines (l @ CHR 0x0A # rest) = l # splitlines rest"
    by simp_all
  obtain d ds where ds: "l @ CHR 0x0A # rest = d # ds" by (cases "l @ CHR 0x0A # rest") simp_all
  have "c \<noteq> CHR 0x0D" using c by (auto simp: line_boundary_def)
  then have "splitlines (c # d # ds) = (case splitlines (d # ds) of [] \<Rightarrow> [[c]] | l # ls \<Rightarrow> (c # l) # ls)"
    using c by simp
  then show ?case using IH by (simp add: ds)
qed

lemma splitlines_stanza:
  assumes "\<forall>c \<in> set l0. \<not> line_boundary c"
    and "\<forall>l \<in> set ls. \<forall>c \<in> set l. \<not> line_boundary c"
  shows "splitlines (l0 @ concat (map (\<lambda>l. CHR 0x0A # l) ls) @ [CHR 0x0A]) = l0 # ls"
  using assms
proof (induction ls arbitrary: l0)
  case Nil
  then show ?case by (simp add: splitlines_line)
next
  case (Cons l ls)
  from Cons.prems have "splitlines (l @ concat (map (\<lambda>l. CHR 0x0A # l) ls) @ [CHR 0x0A]) = l # ls"
    by (intro Cons.IH) simp_all
  with Cons.prems(1) show ?case by (simp add: splitlines_line)
qed

lemma valid_interface_cases:
  assumes "valid_interface ifc"
  obtains "ifc = ''wlan''" | d where "ifc = ''wlan'' @ [d]" and "re_digit d"
proof -
  from assms consider "ifc = ''wlan''"
    | "length ifc = 5" "take 4 ifc = ''wlan''" "re_digit (ifc ! 4)"
    by (auto simp: valid_interface_def)
  then show thesis
  proof cases
    case 1
    then show ?thesis by (rule that(1))
  next
    case 2
    from 2(1) obtain a b c d e where ifc: "ifc = [a, b, c, d, e]"
      by (auto simp: eval_nat_numeral length_Suc_conv)
    from 2(2) have "ifc = ''wlan'' @ [e]" unfolding ifc by simp
    moreover from 2(3) have "re_digit e" unfolding ifc by simp
    ultimately show ?thesis by (rule that(2))
  qed
qed

lemma takeWhile_word_name:
  assumes "valid_name nm"
  shows "takeWhile re_word (nm @ '' inet dhcp'') = nm"
proof -
  have "\<not> re_word CHR '' ''" by (simp add: re_word_def code_in_def)
  then have "takeWhile re_word (nm @ CHR '' '' # ''inet dhcp'') = takeWhile re_word nm"
    by (rule takeWhile_tail)
  moreover from assms have "takeWhile re_word nm = nm"
    by (simp add: valid_name_def list_all_iff)
  ultimately show ?thesis by simp
qed

lemma hyphen_not_digit: "\<not> re_digit CHR ''-''"
  by (simp add: re_digit_def code_in_def)

lemma header_line_matches:
  assumes "valid_interface (interface s)" and "valid_name (name s)"
  shows "scheme_re_match (header_line s) = Some (interface s, Some (name s))"
proof -
  from assms(2) have nm: "name s \<noteq> []" by (simp add: valid_name_def)
  note tw = takeWhile_word_name [OF assms(2)]
  from assms(1) show ?thesis
  proof (cases rule: valid_interface_cases)
    case 1
    then have "header_line s = ''iface wlan-'' @ name s @ '' inet dhcp''"
      by (simp add: header_line_def)
    then show ?thesis
      by (simp add: scheme_re_match_def after_prefix_def startswith_def isspace_def
          hyphen_not_digit tw nm 1)
  next
    case (2 d)
    then have "header_line s = ''iface wlan'' @ d # CHR ''-'' # name s @ '' inet dhcp''"
      by (simp add: header_line_def)
    then show ?thesis
      by (simp add: scheme_re_match_def after_prefix_def startswith_def isspace_def
          tw nm 2)
  qed
qed

lemma sub_runs_id: "no_runs cs \<Longrightarrow> sub_runs cs = cs"
  by (induction cs rule: sub_runs.induct) auto

lemma no_runs_Cons:
  "no_runs (c # cs) \<longleftrightarrow> (cs = [] \<or> \<not> (isspace c \<and> isspace (hd cs))) \<and> no_runs cs"
  by (cases cs) auto

lemma no_runs_key_append:
  "\<forall>c \<in> set k. \<not> isspace c \<Longrightarrow> no_runs (k @ cs) = no_runs cs"
  by (induction k) (simp_all add: no_runs_Cons)

lemma strip_clean:
  assumes "cs \<noteq> []" and "\<not> isspace (hd cs)" and "\<not> isspace (last cs)"
    and "\<forall>c \<in> set ws. isspace c"
  shows "strip (ws @ cs) = cs"
proof -
  from assms(4,1,2) have "dropWhile isspace (ws @ cs) = cs"
    by (cases cs) (simp_all add: dropWhile_append)
  moreover from assms(1,3) have "dropWhile isspace (rev cs) = rev cs"
    by (cases cs rule: rev_cases) simp_all
  ultimately show ?thesis by (simp add: strip_def)
qed

lemma split_once_key:
  assumes "CHR '' '' \<notin> set k"
  shows "split_once (k @ CHR '' '' # v) = [k, v]"
proof -
  from assms have "takeWhile (\<lambda>c. c \<noteq> CHR '' '') (k @ CHR '' '' # v) = k"
    by (auto simp: takeWhile_tail)
  moreover from assms have "dropWhile (\<lambda>c. c \<noteq> CHR '' '') (k @ CHR '' '' # v) = CHR '' '' # v"
    by (auto simp: dropWhile_append)
  ultimately show ?thesis by (simp add: split_once_def)
qed

lemma parse_option_line:
  assumes "clean_key k" and "clean_value v"
  shows "parse_option (option_line (k, v)) = Inr (k, v)"
proof -
  from assms(1) have k: "k \<noteq> []" "\<forall>c \<in> set k. \<not> isspace c"
    by (simp_all add: clean_key_def list_all_iff)
  from assms(2) have v: "v \<noteq> []" "\<not> isspace (hd v)" "\<not> isspace (last v)" "no_runs v"
    by (simp_all add: clean_value_def)
  let ?kv = "k @ CHR '' '' # v"
  have "strip (''    '' @ ?kv) = ?kv"
  proof (rule strip_clean)
    show "?kv \<noteq> []" by simp
    from k show "\<not> isspace (hd ?kv)" by (cases k) simp_all
    from v show "\<not> isspace (last ?kv)" by simp
    show "\<forall>c \<in> set ''    ''. isspace c" by (simp add: isspace_def)
  qed
  then have s: "strip (option_line (k, v)) = ?kv" by (simp add: option_line_def)
  from v have "no_runs (CHR '' '' # v)" by (simp add: no_runs_Cons)
  with k(2) have "no_runs ?kv" by (simp only: no_runs_key_append)
  then have r: "sub_runs ?kv = ?kv" by (rule sub_runs_id)
  from k(2) have "CHR '' '' \<notin> set k" using space_is_space by blast
  then have "split_once ?kv = [k, v]" by (rule split_once_key)
  with s r show ?thesis by (simp add: parse_option_def)
qed

lemma option_line_indented: "startswith (option_line kv) '' ''"
  by (simp add: option_line_def startswith_def)

lemma literal_not_boundary:
  "\<forall>c \<in> set ''iface wlan- inet dhcp''. \<not> line_boundary c"
  by (simp add: line_boundary_def)

lemma header_line_unbroken:
  assumes "valid_interface (interface s)" and "valid_name (name s)"
  shows "\<forall>c \<in> set (header_line s). \<not> line_boundary c"
proof -
  from assms(2) have nm: "\<forall>c \<in> set (name s). \<not> line_boundary c"
    using word_not_space boundary_is_space by (auto simp: valid_name_def list_all_iff)
  have ifc: "\<forall>c \<in> set (interface s). \<not> line_boundary c"
    using assms(1)
  proof (cases rule: valid_interface_cases)
    case 1
    then show ?thesis by (simp add: line_boundary_def)
  next
    case (2 d)
    then have "\<not> line_boundary d" using digit_not_space boundary_is_space by blast
    with 2 show ?thesis by (simp add: line_boundary_def)
  qed
  have "set (header_line s) \<subseteq> set ''iface wlan- inet dhcp'' \<union> set (interface s) \<union> set (name s)"
    by (auto simp: header_line_def)
  with nm ifc literal_not_boundary show ?thesis by blast
qed

lemma option_line_unbroken:
  assumes "clean_key k" and "clean_value v"
  shows "\<forall>c \<in> set (option_line (k, v)). \<not> line_boundary c"
proof -
  from assms(1) have "\<forall>c \<in> set k. \<not> line_boundary c"
    using boundary_is_space by (auto simp: clean_key_def list_all_iff)
  moreover from assms(2) have "\<forall>c \<in> set v. \<not> line_boundary c"
    by (simp add: clean_value_def list_all_iff)
  moreover have "\<not> line_boundary CHR '' ''" by (simp add: line_boundary_def)
  ultimately show ?thesis by (auto simp: option_line_def)
qed

lemma scheme_str_lines:
  assumes "writable s"
  shows "splitlines (scheme_str s) = header_line s # map option_line (options s)"
proof -
  from assms have "valid_interface (interface s)" and "valid_name (name s)"
    by (simp_all add: writable_def)
  then have "\<forall>c \<in> set (header_line s). \<not> line_boundary c"
    by (rule header_line_unbroken)
  moreover from assms have "\<forall>l \<in> set (map option_line (options s)). \<forall>c \<in> set l. \<not> line_boundary c"
    using option_line_unbroken by (fastforce simp: writable_def list_all_iff)
  ultimately have "splitlines (header_line s
      @ concat (map (\<lambda>l. CHR 0x0A # l) (map option_line (options s))) @ [CHR 0x0A])
    = header_line s # map option_line (options s)"
    by (rule splitlines_stanza)
  then show ?thesis by (simp add: scheme_str_def comp_def)
qed

text \<open>
  C1, amended. Take a scheme whose interface is \<^verbatim>\<open>wlan\<close> with at most one digit after
  it, whose name is a non-empty run of word characters, and whose options have no key
  twice, every key non-empty and free of whitespace, and every value non-empty, free of
  line breaks, with no whitespace at either end and no two whitespace characters in a
  row. Parsing its serialized text yields exactly that scheme, with the same interface,
  name, option keys, values and order, and ends without an exception.
\<close>

theorem parse_of_serialized:
  assumes "writable s"
  shows "extract_schemes (scheme_str s) = ([s], None)"
proof -
  from assms have hdr: "scheme_re_match (header_line s) = Some (interface s, Some (name s))"
    by (simp add: writable_def header_line_matches)
  from assms have "\<forall>kv \<in> set (options s).
      startswith (option_line kv) '' '' \<and> parse_option (option_line kv) = Inr kv"
    using parse_option_line [of "fst kv" "snd kv" for kv]
    by (simp add: writable_def list_all_iff option_line_indented)
  then have "list_all2 (\<lambda>l kv. startswith l '' '' \<and> parse_option l = Inr kv)
      (map option_line (options s)) (options s)"
    by (simp add: list_all2_map1 list_all2_same)
  then have "read_options [] (map option_line (options s) @ []) =
      Inr (assign_all [] (options s), [])"
    by (rule read_options_run) simp
  moreover from assms have "assign_all [] (options s) = options s"
    by (simp add: writable_def assign_all_distinct)
  ultimately have "read_options [] (map option_line (options s)) = Inr (options s, [])"
    by simp
  with hdr have "extract_lines (header_line s # map option_line (options s)) = ([s], None)"
    by (simp add: extract_lines_stanza del: extract_lines.simps(2))
  with assms show ?thesis
    by (simp only: extract_schemes_def scheme_str_lines)
qed

lemma office_writable: "writable office"
proof -
  have "valid_interface ''wlan0''"
    by (simp add: valid_interface_def re_digit_def code_in_def)
  moreover have "valid_name ''office''"
    by (simp add: valid_name_def re_word_def code_in_def)
  moreover have "clean_key ''wpa-ssid''" and "clean_key ''wpa-psk''"
    by (simp_all add: clean_key_def isspace_def)
  moreover have "clean_value ''My Net''" and "clean_value ''s3cret''"
    by (simp_all add: clean_value_def isspace_def line_boundary_def)
  ultimately show ?thesis by (simp add: writable_def office_def)
qed

theorem parse_of_serialized_witness:
  "extract_schemes (scheme_str office) = ([office], None)"
  using office_writable by (rule parse_of_serialized)

lemma spaced_str:
  "scheme_str spaced = ''iface wlan0-home inet dhcp\<newline>    wpa-ssid My  Net\<newline>''"
  by (simp add: scheme_str_def header_line_def option_line_def spaced_def)

lemma spaced_lines:
  "splitlines ''iface wlan0-home inet dhcp\<newline>    wpa-ssid My  Net\<newline>'' =
     [''iface wlan0-home inet dhcp'', ''    wpa-ssid My  Net'']"
  by (simp add: line_boundary_def)

lemma spaced_option: "parse_option ''    wpa-ssid My  Net'' = Inr (''wpa-ssid'', ''My Net'')"
  by (simp add: parse_option_def strip_def split_once_def isspace_def)

lemma spaced_parse:
  "extract_schemes (scheme_str spaced) =
     ([\<lparr>interface = ''wlan0'', name = ''home'', options = [(''wpa-ssid'', ''My Net'')]\<rparr>], None)"
proof -
  have "read_options [] [''    wpa-ssid My  Net''] = Inr ([(''wpa-ssid'', ''My Net'')], [])"
    by (simp add: spaced_option startswith_def)
  then have "extract_lines [''iface wlan0-home inet dhcp'', ''    wpa-ssid My  Net''] =
     ([\<lparr>interface = ''wlan0'', name = ''home'', options = [(''wpa-ssid'', ''My Net'')]\<rparr>], None)"
    by (simp add: extract_lines_stanza [OF wlan0_home_match] del: extract_lines.simps(2))
  then show ?thesis by (simp only: extract_schemes_def spaced_str spaced_lines)
qed

text \<open>
  Against C1 as stated: a scheme with a valid interface and name and one option whose
  value has two spaces in a row. The parser replaces the two spaces by one, so the scheme
  it yields has another value than the scheme that was written.
\<close>

theorem round_trip_counterexample:
  "valid_interface (interface spaced) \<and> valid_name (name spaced)
   \<and> distinct (map fst (options spaced))
   \<and> extract_schemes (scheme_str spaced) =
       ([\<lparr>interface = ''wlan0'', name = ''home'', options = [(''wpa-ssid'', ''My Net'')]\<rparr>], None)
   \<and> extract_schemes (scheme_str spaced) \<noteq> ([spaced], None)"
proof (intro conjI)
  show "valid_interface (interface spaced)"
    by (simp add: spaced_def valid_interface_def re_digit_def code_in_def)
  show "valid_name (name spaced)"
    by (simp add: spaced_def valid_name_def re_word_def code_in_def)
  show "distinct (map fst (options spaced))" by (simp add: spaced_def)
  show "extract_schemes (scheme_str spaced) =
       ([\<lparr>interface = ''wlan0'', name = ''home'', options = [(''wpa-ssid'', ''My Net'')]\<rparr>], None)"
    by (rule spaced_parse)
  show "extract_schemes (scheme_str spaced) \<noteq> ([spaced], None)"
    unfolding spaced_parse by (simp add: spaced_def)
qed

end
